theory Spec2Isabelle
  imports Complex_Main "HOL-Library.Multiset"
begin

section \<open>Stroke-width text detection (bibnumber, textdetection.cpp)\<close>

text \<open>
  A shallow embedding of the detection pipeline of \<^verbatim>\<open>src/bibnumber/textdetection.cpp\<close>.
  Conventions used throughout:
  \<^item> C++ \<^verbatim>\<open>int\<close> is \<^typ>\<open>int\<close> (no claim below depends on overflow), vector indices and
    sizes are \<^typ>\<open>nat\<close>;
  \<^item> C++ \<^verbatim>\<open>float\<close>/\<^verbatim>\<open>double\<close> values are \<^typ>\<open>real\<close>: comparisons, \<^verbatim>\<open>std::min\<close>,
    \<^verbatim>\<open>std::max\<close> and sorting are exact on floats; rounding of arithmetic is modelled only
    where a count depends on it (the angle loop of the rotated bounding box);
  \<^item> the structs of \<^verbatim>\<open>textdetection.h\<close> (not part of the sources at hand) are records
    whose fields are the ones the code reads and writes; one-letter field names get a
    prefix (\<^verbatim>\<open>Chain::p\<close> is \<open>cp\<close>, \<^verbatim>\<open>Point2d::x\<close> is \<open>px\<close>, \<^verbatim>\<open>Point2dFloat::x\<close> is \<open>fx\<close>);
  \<^item> the external collaborators (OpenCV image operations, Tesseract) are parameters.
\<close>

subsection \<open>Data\<close>

record Point2d =
  px :: int
  py :: int
  SWT :: real

record Point2dFloat =
  fx :: real
  fy :: real

record Ray =
  rp :: Point2d
  rq :: Point2d
  points :: "Point2d list"

record Chain =
  cp :: nat
  cq :: nat
  dist :: real
  merged :: bool
  direction :: Point2dFloat
  components :: "nat list"

record TextDetectionParams =
  darkOnLight :: bool
  maxStrokeLength :: real
  minCharacterheight :: int
  maxImgWidthToTextRatio :: real
  maxAngle :: real
  topBorder :: int
  bottomBorder :: int

text \<open>The macro \<^verbatim>\<open>PI\<close> of the source is the decimal 3.14159265, not the number \<open>\<pi>\<close>.\<close>

definition PI :: real where
  "PI = 314159265 / 100000000"

definition COM_MAX_MEDIAN_RATIO :: real where
  "COM_MAX_MEDIAN_RATIO = 3"

definition COM_MAX_DIM_RATIO :: real where
  "COM_MAX_DIM_RATIO = 2"

definition COM_MAX_DIST_RATIO :: real where
  "COM_MAX_DIST_RATIO = 16 / 10"

definition COM_MAX_ASPECT_RATIO :: real where
  "COM_MAX_ASPECT_RATIO = 2"

definition square :: "int \<Rightarrow> int" where
  "square v = v * v"

definition absd :: "real \<Rightarrow> real" where
  "absd v = (if v > 0 then v else - v)"

text \<open>The parameters used in the examples.\<close>

definition ex_params :: TextDetectionParams where
  "ex_params = \<lparr>darkOnLight = True, maxStrokeLength = 20, minCharacterheight = 5,
                maxImgWidthToTextRatio = 4, maxAngle = 10, topBorder = 0, bottomBorder = 0\<rparr>"

subsection \<open>Floating-point rounding\<close>

text \<open>
  Two results of the pipeline depend on the rounding of \<^verbatim>\<open>float\<close> arithmetic: the number
  of angles the rotated-box search visits (the accumulator \<^verbatim>\<open>float theta\<close>) and the angle
  test of the chain builder (\<^verbatim>\<open>acos\<close> of a \<^verbatim>\<open>float\<close> dot product). For these stages the
  conversions are a parameter of the model: \<open>to_double\<close> rounds the result of an operation
  done in \<^verbatim>\<open>double\<close>, \<open>to_float\<close> a value stored in or computed as a \<^verbatim>\<open>float\<close>. \<open>exact\<close> does
  not round; \<open>ieee\<close> rounds to nearest, ties to even, with 53 and 24 significant bits
  (\<open>expo2 v\<close> is the binary exponent \<open>\<lfloor>log\<^sub>2 v\<rfloor>\<close> of a positive \<open>v\<close>; exponent range,
  infinities and signed zeros are not modelled). Every \<^verbatim>\<open>float\<close> operation is rounded on
  its own (no fused multiply-add, no wider intermediate format).
\<close>

function expo2 :: "real \<Rightarrow> int" where
  "expo2 v = (if v \<le> 0 then 0
              else if 2 \<le> v then expo2 (v / 2) + 1
              else if v < 1 then expo2 (v * 2) - 1
              else 0)"
  by pat_completeness auto
termination
proof (relation "measure (\<lambda>v. nat \<bar>\<lfloor>log 2 v\<rfloor>\<bar>)")
  show "wf (measure (\<lambda>v. nat \<bar>\<lfloor>log 2 v\<rfloor>\<bar>))" by simp
next
  fix v :: real
  assume "\<not> v \<le> 0" "2 \<le> v"
  then have l: "log 2 (v / 2) = log 2 v - 1" by (simp add: log_divide)
  have "1 \<le> log 2 v" using \<open>2 \<le> v\<close> by (simp add: le_log_iff)
  then have "1 \<le> \<lfloor>log 2 v\<rfloor>" by linarith
  then show "(v / 2, v) \<in> measure (\<lambda>v. nat \<bar>\<lfloor>log 2 v\<rfloor>\<bar>)"
    unfolding in_measure l by linarith
next
  fix v :: real
  assume v: "\<not> v \<le> 0" "\<not> 2 \<le> v" "v < 1"
  then have l: "log 2 (v * 2) = log 2 v + 1" by (simp add: log_mult)
  have "log 2 v < 0" using v by simp
  then have "\<lfloor>log 2 v\<rfloor> \<le> - 1" by linarith
  then show "(v * 2, v) \<in> measure (\<lambda>v. nat \<bar>\<lfloor>log 2 v\<rfloor>\<bar>)"
    unfolding in_measure l by linarith
qed

declare expo2.simps [simp del]

definition round_half_even :: "real \<Rightarrow> int" where
  "round_half_even v =
     (let n = \<lfloor>v\<rfloor>; r = v - of_int n
      in if r < 1 / 2 then n else if r > 1 / 2 then n + 1 else if even n then n else n + 1)"

definition pow2 :: "int \<Rightarrow> real" where
  "pow2 e = (if e \<ge> 0 then 2 ^ nat e else 1 / 2 ^ nat (- e))"

definition round_bits :: "nat \<Rightarrow> real \<Rightarrow> real" where
  "round_bits p v =
     (if v = 0 then 0
      else let u = pow2 (expo2 \<bar>v\<bar> - int p + 1)
           in sgn v * of_int (round_half_even (\<bar>v\<bar> / u)) * u)"

record fmode =
  to_float :: "real \<Rightarrow> real"
  to_double :: "real \<Rightarrow> real"

definition exact :: fmode where
  "exact = \<lparr>to_float = (\<lambda>v. v), to_double = (\<lambda>v. v)\<rparr>"

definition ieee :: fmode where
  "ieee = \<lparr>to_float = round_bits 24, to_double = round_bits 53\<rparr>"

text \<open>The macro \<^verbatim>\<open>PI\<close> as the \<^verbatim>\<open>double\<close> constant the compiler makes of its decimal.\<close>

definition PI_d :: "fmode \<Rightarrow> real" where
  "PI_d m = to_double m PI"

text \<open>
  \<^verbatim>\<open>ratio_within(float ratio, float max_ratio)\<close>: the limit is converted to \<^verbatim>\<open>float\<close> and
  \<^verbatim>\<open>1 / max_ratio\<close> is a \<^verbatim>\<open>float\<close> division.
\<close>

definition ratio_within :: "fmode \<Rightarrow> real \<Rightarrow> real \<Rightarrow> bool" where
  "ratio_within m ratio max_ratio \<longleftrightarrow>
     ratio < to_float m max_ratio \<and> ratio > to_float m (1 / to_float m max_ratio)"

subsection \<open>Images\<close>

text \<open>
  An \<^verbatim>\<open>IplImage\<close> with one channel of element type \<open>'a\<close>: its size and
  \<^verbatim>\<open>CV_IMAGE_ELEM(img, type, row, col)\<close> as a function of row and column. The stroke-width
  map and the gradients are \<open>real IplImage\<close>, the edge mask (\<^verbatim>\<open>uchar\<close>) is \<open>nat IplImage\<close>.
\<close>

record 'a IplImage =
  img_width :: int
  img_height :: int
  img_elem :: "int \<Rightarrow> int \<Rightarrow> 'a"

text \<open>
  The raster scan \<^verbatim>\<open>for row ... for col ...\<close>: all \<open>(row, col)\<close> in the order the loops
  visit them.
\<close>

definition scan :: "'a IplImage \<Rightarrow> (int \<times> int) list" where
  "scan img =
     concat (map (\<lambda>row. map (\<lambda>col. (row, col)) [0..img_width img - 1]) [0..img_height img - 1])"

subsection \<open>Ray transform and median filter (\<^verbatim>\<open>strokeWidthTransform\<close>, \<^verbatim>\<open>SWTMedianFilter\<close>)\<close>

text \<open>
  The step of the ray walk (\<^verbatim>\<open>float prec = .05\<close>) and the assignment
  \<^verbatim>\<open>CV_IMAGE_ELEM(img, float, row, col) = v\<close>.
\<close>

definition prec :: real where
  "prec = 5 / 100"

definition set_elem :: "'a IplImage \<Rightarrow> int \<Rightarrow> int \<Rightarrow> 'a \<Rightarrow> 'a IplImage" where
  "set_elem img row col v = img\<lparr>img_elem := (img_elem img)(row := (img_elem img row)(col := v))\<rparr>"

text \<open>
  The \<^verbatim>\<open>while (true)\<close> loop that walks from an edge pixel along the gradient. It ends with
  \<open>Some None\<close> when the walk leaves the image (the first \<^verbatim>\<open>break\<close>), with
  \<open>Some (Some pts)\<close> when it enters another edge pixel, the last of \<open>pts\<close>; a walk that
  never ends is \<open>None\<close>. \<open>w\<close> and \<open>h\<close> are the size of the stroke-width map. The
  \<^verbatim>\<open>SWT\<close> field of the points pushed is not set by the code and is 0 here.
\<close>

partial_function (option) walk ::
  "nat IplImage \<Rightarrow> int \<Rightarrow> int \<Rightarrow> real \<Rightarrow> real \<Rightarrow> real \<Rightarrow> real \<Rightarrow> int \<Rightarrow> int \<Rightarrow> Point2d list
     \<Rightarrow> Point2d list option option" where
  "walk edgeImage w h G_x G_y curX0 curY0 curPixX0 curPixY0 pts =
     (let curX = curX0 + G_x * prec; curY = curY0 + G_y * prec in
      if \<lfloor>curX\<rfloor> \<noteq> curPixX0 \<or> \<lfloor>curY\<rfloor> \<noteq> curPixY0 then
        let curPixX = \<lfloor>curX\<rfloor>; curPixY = \<lfloor>curY\<rfloor> in
        if curPixX < 0 \<or> curPixX \<ge> w \<or> curPixY < 0 \<or> curPixY \<ge> h then Some None
        else
          let pnew = \<lparr>px = curPixX, py = curPixY, SWT = 0\<rparr> in
          if img_elem edgeImage curPixY curPixX > 0 then Some (Some (pts @ [pnew]))
          else walk edgeImage w h G_x G_y curX curY curPixX curPixY (pts @ [pnew])
      else walk edgeImage w h G_x G_y curX curY curPixX0 curPixY0 pts)"

text \<open>
  The normalised gradient, negated for dark text on light ground. For a zero gradient the
  code divides 0 by 0 and both components are NaN: that is \<open>None\<close> here.
\<close>

definition ray_direction :: "bool \<Rightarrow> real \<Rightarrow> real \<Rightarrow> (real \<times> real) option" where
  "ray_direction dark G_x G_y =
     (let mag = sqrt (G_x * G_x + G_y * G_y)
      in if mag = 0 then None
         else if dark then Some (- G_x / mag, - G_y / mag) else Some (G_x / mag, G_y / mag))"

text \<open>The length of a ray from \<open>p\<close> to \<open>q\<close>.\<close>

definition ray_length :: "Point2d \<Rightarrow> Point2d \<Rightarrow> real" where
  "ray_length p q =
     sqrt ((real_of_int (px q) - real_of_int (px p)) * (real_of_int (px q) - real_of_int (px p))
         + (real_of_int (py q) - real_of_int (py p)) * (real_of_int (py q) - real_of_int (py p)))"

text \<open>
  The write to one pixel of an accepted ray: the ray length when the value is below 0
  (unset), else the minimum of the length and the value.
\<close>

definition swt_update :: "real \<Rightarrow> real IplImage \<Rightarrow> Point2d \<Rightarrow> real IplImage" where
  "swt_update len img pit =
     (if img_elem img (py pit) (px pit) < 0
      then set_elem img (py pit) (px pit) len
      else set_elem img (py pit) (px pit) (min len (img_elem img (py pit) (px pit))))"

text \<open>
  The body of the double loop for one pixel: the state is the stroke-width map and the
  rays recorded so far. With a NaN direction at the start pixel the position is NaN after
  the first step; its conversion to \<^verbatim>\<open>int\<close> (undefined in C++, \<^verbatim>\<open>INT_MIN\<close> on x86-64) differs
  from the pixel and is below 0, so the walk leaves the loop at once and no ray is
  recorded. With a NaN direction at the end pixel \<^verbatim>\<open>acos\<close> returns NaN, the comparison is
  false and no ray is recorded either.
\<close>

definition cast_ray ::
  "nat IplImage \<Rightarrow> real IplImage \<Rightarrow> real IplImage \<Rightarrow> TextDetectionParams
     \<Rightarrow> real IplImage \<times> Ray list \<Rightarrow> int \<times> int \<Rightarrow> (real IplImage \<times> Ray list) option" where
  "cast_ray edgeImage gradientX gradientY params s rc =
     (case s of (SWTImage, rays) \<Rightarrow>
      case rc of (row, col) \<Rightarrow>
        if img_elem edgeImage row col > 0 then
          let p = \<lparr>px = col, py = row, SWT = 0\<rparr>
          in case ray_direction (darkOnLight params)
                    (img_elem gradientX row col) (img_elem gradientY row col) of
               None \<Rightarrow> Some (SWTImage, rays)
             | Some (G_x, G_y) \<Rightarrow>
                (case walk edgeImage (img_width SWTImage) (img_height SWTImage) G_x G_y
                        (real_of_int col + 5 / 10) (real_of_int row + 5 / 10) col row [p] of
                   None \<Rightarrow> None
                 | Some None \<Rightarrow> Some (SWTImage, rays)
                 | Some (Some pts) \<Rightarrow>
                     let q = last pts
                     in case ray_direction (darkOnLight params)
                               (img_elem gradientX (py q) (px q))
                               (img_elem gradientY (py q) (px q)) of
                          None \<Rightarrow> Some (SWTImage, rays)
                        | Some (G_xt, G_yt) \<Rightarrow>
                            if arccos (G_x * - G_xt + G_y * - G_yt) < PI / 2 then
                              let len = ray_length p q
                              in if len > maxStrokeLength params then Some (SWTImage, rays)
                                 else Some (foldl (swt_update len) SWTImage pts,
                                            rays @ [\<lparr>rp = p, rq = q, points = pts\<rparr>])
                            else Some (SWTImage, rays))
        else Some (SWTImage, rays))"

fun fold_option :: "('s \<Rightarrow> 'a \<Rightarrow> 's option) \<Rightarrow> 's \<Rightarrow> 'a list \<Rightarrow> 's option" where
  "fold_option f s [] = Some s"
| "fold_option f s (a # as) = (case f s a of None \<Rightarrow> None | Some s' \<Rightarrow> fold_option f s' as)"

definition strokeWidthTransform ::
  "nat IplImage \<Rightarrow> real IplImage \<Rightarrow> real IplImage \<Rightarrow> TextDetectionParams
     \<Rightarrow> real IplImage \<Rightarrow> Ray list \<Rightarrow> (real IplImage \<times> Ray list) option" where
  "strokeWidthTransform edgeImage gradientX gradientY params SWTImage rays =
     fold_option (cast_ray edgeImage gradientX gradientY params) (SWTImage, rays) (scan edgeImage)"

text \<open>
  \<^verbatim>\<open>SWTMedianFilter\<close>, one ray: the values of the map are copied into the points, the
  points are sorted by them (\<^verbatim>\<open>std::sort\<close>; the order of equal values is not fixed by
  C++, here it is the stable one), the median is the value at index \<open>size / 2\<close>, and every
  point's pixel is set to the minimum of its copied value and the median. For a ray without
  points the code would read out of range; accepted rays have at least two points.
\<close>

definition ray_median_filter :: "real IplImage \<Rightarrow> Ray \<Rightarrow> real IplImage \<times> Ray" where
  "ray_median_filter img r =
     (let pts = map (\<lambda>pit. pit\<lparr>SWT := img_elem img (py pit) (px pit)\<rparr>) (points r);
          spts = sort_key SWT pts;
          median = SWT (spts ! (length spts div 2))
      in (foldl (\<lambda>img pit. set_elem img (py pit) (px pit) (min (SWT pit) median)) img spts,
          r\<lparr>points := spts\<rparr>))"

definition SWTMedianFilter :: "real IplImage \<Rightarrow> Ray list \<Rightarrow> real IplImage \<times> Ray list" where
  "SWTMedianFilter SWTImage rays =
     foldl (\<lambda>(img, acc) r. case ray_median_filter img r of (img', r') \<Rightarrow> (img', acc @ [r']))
       (SWTImage, []) rays"

text \<open>
  The invariant of the transform: on every pixel of a recorded ray the map holds a value
  between 0 and the length of that ray.
\<close>

definition swt_inv :: "real IplImage \<times> Ray list \<Rightarrow> bool" where
  "swt_inv s \<longleftrightarrow>
     (\<forall>r \<in> set (snd s). \<forall>pt \<in> set (points r).
        0 \<le> img_elem (fst s) (py pt) (px pt)
        \<and> img_elem (fst s) (py pt) (px pt) \<le> ray_length (rp r) (rq r))"

text \<open>
  The provenance of the values: every pixel of the map holds the value it had in the map
  \<open>img0\<close> the transform started from, or the length of a recorded ray through that pixel.
\<close>

definition swt_prov :: "real IplImage \<Rightarrow> real IplImage \<times> Ray list \<Rightarrow> bool" where
  "swt_prov img0 s \<longleftrightarrow>
     (\<forall>row col. img_elem (fst s) row col = img_elem img0 row col
        \<or> (\<exists>r \<in> set (snd s). \<exists>pt \<in> set (points r). py pt = row \<and> px pt = col
              \<and> img_elem (fst s) row col = ray_length (rp r) (rq r)))"

text \<open>
  A one-row example: edge pixels in columns 0 and 3 with opposite gradients, an unset
  map, and the two rays the transform finds.
\<close>

definition ex_edge :: "nat IplImage" where
  "ex_edge = \<lparr>img_width = 4, img_height = 1,
              img_elem = (\<lambda>row col. if col = 0 \<or> col = 3 then 255 else 0)\<rparr>"

definition ex_gradX :: "real IplImage" where
  "ex_gradX = \<lparr>img_width = 4, img_height = 1,
              img_elem = (\<lambda>row col. if col = 0 then - 2 else if col = 3 then 2 else 0)\<rparr>"

definition ex_gradY :: "real IplImage" where
  "ex_gradY = \<lparr>img_width = 4, img_height = 1, img_elem = (\<lambda>row col. 0)\<rparr>"

definition ex_unset :: "real IplImage" where
  "ex_unset = \<lparr>img_width = 4, img_height = 1, img_elem = (\<lambda>row col. - 1)\<rparr>"

definition ex_ray1 :: Ray where
  "ex_ray1 = \<lparr>rp = \<lparr>px = 0, py = 0, SWT = 0\<rparr>, rq = \<lparr>px = 3, py = 0, SWT = 0\<rparr>,
      points = [\<lparr>px = 0, py = 0, SWT = 0\<rparr>, \<lparr>px = 1, py = 0, SWT = 0\<rparr>,
                \<lparr>px = 2, py = 0, SWT = 0\<rparr>, \<lparr>px = 3, py = 0, SWT = 0\<rparr>]\<rparr>"

definition ex_ray2 :: Ray where
  "ex_ray2 = \<lparr>rp = \<lparr>px = 3, py = 0, SWT = 0\<rparr>, rq = \<lparr>px = 0, py = 0, SWT = 0\<rparr>,
      points = [\<lparr>px = 3, py = 0, SWT = 0\<rparr>, \<lparr>px = 2, py = 0, SWT = 0\<rparr>,
                \<lparr>px = 1, py = 0, SWT = 0\<rparr>, \<lparr>px = 0, py = 0, SWT = 0\<rparr>]\<rparr>"

subsection \<open>Component graph (\<^verbatim>\<open>findLegallyConnectedComponents\<close>)\<close>

text \<open>
  First loop: every pixel with a value above 0 gets the next vertex number;
  \<^verbatim>\<open>map\<close> takes the key \<^verbatim>\<open>row * width + col\<close> to the number and \<^verbatim>\<open>revmap\<close> the number to the
  point. The code sets only \<^verbatim>\<open>x\<close> and \<^verbatim>\<open>y\<close> of the point; its \<^verbatim>\<open>SWT\<close> field is not read
  afterwards and is 0 here.
\<close>

definition number_step ::
  "real IplImage \<Rightarrow> (int \<rightharpoonup> nat) \<times> (nat \<rightharpoonup> Point2d) \<times> nat \<Rightarrow> int \<times> int
     \<Rightarrow> (int \<rightharpoonup> nat) \<times> (nat \<rightharpoonup> Point2d) \<times> nat" where
  "number_step img s rc =
     (case s of (m, revmap, num_vertices) \<Rightarrow>
      case rc of (row, col) \<Rightarrow>
        if img_elem img row col > 0
        then (m(row * img_width img + col \<mapsto> num_vertices),
              revmap(num_vertices \<mapsto> \<lparr>px = col, py = row, SWT = 0\<rparr>),
              num_vertices + 1)
        else (m, revmap, num_vertices))"

definition number_vertices :: "real IplImage \<Rightarrow> (int \<rightharpoonup> nat) \<times> (nat \<rightharpoonup> Point2d) \<times> nat" where
  "number_vertices img = foldl (number_step img) (Map.empty, Map.empty, 0) (scan img)"

text \<open>
  The graph is the list of the edges added, in order. \<^verbatim>\<open>map.at(key)\<close> throws
  \<^verbatim>\<open>std::out_of_range\<close> on a missing key: the error is a value and is passed on.
\<close>

datatype error = out_of_range

type_synonym Graph = "(nat \<times> nat) list"

definition add_edge_at :: "nat \<Rightarrow> (int \<rightharpoonup> nat) \<Rightarrow> int \<Rightarrow> error + Graph \<Rightarrow> error + Graph" where
  "add_edge_at u m key g =
     (case g of
        Inl e \<Rightarrow> Inl e
      | Inr es \<Rightarrow> (case m key of None \<Rightarrow> Inl out_of_range | Some v \<Rightarrow> Inr (es @ [(u, v)])))"

text \<open>
  The test guarding each \<^verbatim>\<open>add_edge\<close>, for the pixel value \<open>a\<close> (\<^verbatim>\<open>*ptr\<close>) and the
  neighbour's value \<open>b\<close>: \<^verbatim>\<open>b > 0 && (a / b <= 3.0 || b / a <= 3.0)\<close>.
\<close>

definition legally_connected :: "real \<Rightarrow> real \<Rightarrow> bool" where
  "legally_connected a b \<longleftrightarrow> b > 0 \<and> (a / b \<le> 3 \<or> b / a \<le> 3)"

text \<open>
  Second loop, one pixel: the neighbours to the right, right-down, down and left-down, in
  the order of the code. \<^verbatim>\<open>map[key]\<close> for the pixel itself reads 0 on a missing key.
\<close>

definition pixel_edges :: "real IplImage \<Rightarrow> (int \<rightharpoonup> nat) \<Rightarrow> error + Graph \<Rightarrow> int \<times> int \<Rightarrow> error + Graph" where
  "pixel_edges img m g rc =
     (case rc of (row, col) \<Rightarrow>
      let w = img_width img; h = img_height img; a = img_elem img row col in
      if a > 0 then
        let this_pixel = (case m (row * w + col) of Some v \<Rightarrow> v | None \<Rightarrow> 0);
            g1 = (if col + 1 < w \<and> legally_connected a (img_elem img row (col + 1))
                  then add_edge_at this_pixel m (row * w + col + 1) g else g)
        in if row + 1 < h then
             let g2 = (if col + 1 < w \<and> legally_connected a (img_elem img (row + 1) (col + 1))
                       then add_edge_at this_pixel m ((row + 1) * w + col + 1) g1 else g1);
                 g3 = (if legally_connected a (img_elem img (row + 1) col)
                       then add_edge_at this_pixel m ((row + 1) * w + col) g2 else g2)
             in (if col - 1 \<ge> 0 \<and> legally_connected a (img_elem img (row + 1) (col - 1))
                 then add_edge_at this_pixel m ((row + 1) * w + col - 1) g3 else g3)
           else g1
      else g)"

definition build_graph :: "real IplImage \<Rightarrow> (int \<rightharpoonup> nat) \<Rightarrow> error + Graph" where
  "build_graph img m = foldl (pixel_edges img m) (Inr []) (scan img)"

text \<open>
  \<^verbatim>\<open>boost::connected_components(g, &c[0])\<close> is library code: it visits the vertices in
  index order, starts a new component number at every vertex not yet discovered and gives
  that number to all vertices reachable from it; it returns the number of components.
  Here: \<open>reachable\<close> closes \<open>[v]\<close> under adjacency (\<open>n\<close> rounds suffice for \<open>n\<close>
  vertices), \<open>seen\<close> is the colour map and \<open>c\<close> the zero-initialised label vector.
\<close>

definition adjacent :: "Graph \<Rightarrow> nat \<Rightarrow> nat list" where
  "adjacent es v = map snd (filter (\<lambda>e. fst e = v) es) @ map fst (filter (\<lambda>e. snd e = v) es)"

definition grow :: "Graph \<Rightarrow> nat list \<Rightarrow> nat list" where
  "grow es vs = remdups (vs @ concat (map (adjacent es) vs))"

definition reachable :: "nat \<Rightarrow> Graph \<Rightarrow> nat \<Rightarrow> nat list" where
  "reachable n es v = (grow es ^^ n) [v]"

definition cc_visit :: "nat \<Rightarrow> Graph \<Rightarrow> nat \<times> bool list \<times> nat list \<Rightarrow> nat \<Rightarrow> nat \<times> bool list \<times> nat list" where
  "cc_visit n es s v =
     (case s of (num, seen, c) \<Rightarrow>
        if seen ! v then (num, seen, c)
        else
          let vs = filter (\<lambda>u. u < n \<and> \<not> seen ! u) (reachable n es v)
          in (num + 1,
              foldl (\<lambda>seen u. seen[u := True]) seen vs,
              foldl (\<lambda>c u. c[u := num]) c vs))"

definition connected_components :: "nat \<Rightarrow> Graph \<Rightarrow> nat \<times> nat list" where
  "connected_components n es =
     (case foldl (cc_visit n es) (0, replicate n False, replicate n 0) [0..<n] of
        (num, seen, c) \<Rightarrow> (num, c))"

text \<open>
  Last loops: \<^verbatim>\<open>num_comp\<close> empty vectors, then \<^verbatim>\<open>components[c[j]].push_back(revmap[j])\<close>
  for every vertex \<open>j\<close>. \<^verbatim>\<open>revmap[j]\<close> on a missing key would read a default point.
\<close>

definition default_point :: Point2d where
  "default_point = \<lparr>px = 0, py = 0, SWT = 0\<rparr>"

definition collect_components :: "(nat \<rightharpoonup> Point2d) \<Rightarrow> nat \<Rightarrow> nat \<Rightarrow> nat list \<Rightarrow> Point2d list list" where
  "collect_components revmap num_vertices num_comp c =
     foldl (\<lambda>comps j.
              comps[c ! j := comps ! (c ! j)
                       @ [case revmap j of Some p \<Rightarrow> p | None \<Rightarrow> default_point]])
       (replicate num_comp []) [0..<num_vertices]"

definition findLegallyConnectedComponents :: "real IplImage \<Rightarrow> error + Point2d list list" where
  "findLegallyConnectedComponents img =
     (case number_vertices img of (m, revmap, num_vertices) \<Rightarrow>
      case build_graph img m of
        Inl e \<Rightarrow> Inl e
      | Inr g \<Rightarrow>
         (case connected_components num_vertices g of (num_comp, c) \<Rightarrow>
            Inr (collect_components revmap num_vertices num_comp c)))"

text \<open>
  The pixel of a \<open>(row, col)\<close> pair as the point the code stores, and the pixels of an
  image with a value above 0, in scan order.
\<close>

definition point_of :: "int \<times> int \<Rightarrow> Point2d" where
  "point_of rc = \<lparr>px = snd rc, py = fst rc, SWT = 0\<rparr>"

definition positive_pixels :: "real IplImage \<Rightarrow> (int \<times> int) list" where
  "positive_pixels img = filter (\<lambda>rc. img_elem img (fst rc) (snd rc) > 0) (scan img)"

text \<open>
  Invariants used in the proofs: the graph was built without an exception; the labels
  given so far are below the component counter.
\<close>

definition built :: "error + Graph \<Rightarrow> bool" where
  "built g \<longleftrightarrow> (\<exists>es. g = Inr es)"

definition cc_inv :: "nat \<Rightarrow> nat \<times> bool list \<times> nat list \<Rightarrow> bool" where
  "cc_inv n s \<longleftrightarrow>
     (case s of (num, seen, c) \<Rightarrow>
        length seen = n \<and> length c = n \<and> (\<forall>j<n. seen ! j \<longrightarrow> c ! j < num))"

text \<open>
  Two stroke-width maps: a single row with the values 1 and 4, and a 2 by 3 map whose
  middle column is unset (\<open>-1\<close>) or zero.
\<close>

definition ex_row :: "real IplImage" where
  "ex_row = \<lparr>img_width = 2, img_height = 1, img_elem = (\<lambda>row col. if col = 0 then 1 else 4)\<rparr>"

definition ex_img :: "real IplImage" where
  "ex_img = \<lparr>img_width = 3, img_height = 2,
    img_elem = (\<lambda>row col. if row = 0 then (if col = 0 then 2 else if col = 1 then -1 else 5)
                           else (if col = 0 then 3 else if col = 1 then 0 else 5))\<rparr>"

subsection \<open>Rotated bounding box (\<^verbatim>\<open>filterComponents\<close>, first pass)\<close>

text \<open>
  The number of angles the search visits depends on the rounding of the accumulator
  \<^verbatim>\<open>float theta\<close>, so the loop header is computed in the mode \<open>m\<close>. \<^verbatim>\<open>cos\<close>, \<^verbatim>\<open>sin\<close> and the
  arithmetic on the rotated coordinates are the real functions in both modes.
\<close>

text \<open>
  \<^verbatim>\<open>float increment = 1. / 36.\<close> and the loop header
  \<^verbatim>\<open>for (float theta = increment * PI; theta < PI / 2.0; theta += increment * PI)\<close>:
  the products and the sum are computed in \<^verbatim>\<open>double\<close> and stored to \<^verbatim>\<open>float\<close>.
\<close>

definition increment :: "fmode \<Rightarrow> real" where
  "increment m = to_float m (to_double m (1 / 36))"

definition theta_step :: "fmode \<Rightarrow> real" where
  "theta_step m = to_double m (increment m * PI_d m)"

definition theta_start :: "fmode \<Rightarrow> real" where
  "theta_start m = to_float m (theta_step m)"

definition theta_next :: "fmode \<Rightarrow> real \<Rightarrow> real" where
  "theta_next m theta = to_float m (to_double m (theta + theta_step m))"

definition theta_limit :: "fmode \<Rightarrow> real" where
  "theta_limit m = to_double m (PI_d m / 2)"

text \<open>
  The \<^verbatim>\<open>for\<close> loop over \<open>theta\<close> with its body as a function of the angle and the state;
  a loop that never ends is \<open>None\<close>.
\<close>

partial_function (option) theta_loop :: "fmode \<Rightarrow> (real \<Rightarrow> 's \<Rightarrow> 's) \<Rightarrow> real \<Rightarrow> 's \<Rightarrow> 's option" where
  "theta_loop m body theta s =
     (if theta < theta_limit m then theta_loop m body (theta_next m theta) (body theta s)
      else Some s)"

text \<open>
  The body: the coordinates \<^verbatim>\<open>xtemp\<close>, \<^verbatim>\<open>ytemp\<close> of a pixel rotated about the origin, the
  running minima and maxima of the rotated coordinates of all pixels of the component,
  started at \<open>(1000000, 0, 1000000, 0)\<close> as in the code, the candidate
  \<open>(ltemp * wtemp, ltemp, wtemp)\<close>, and the update of \<open>(area, length, width)\<close> when the
  candidate's area is strictly smaller.
\<close>

definition rot_x :: "real \<Rightarrow> Point2d \<Rightarrow> real" where
  "rot_x theta pt = real_of_int (px pt) * cos theta + real_of_int (py pt) * - sin theta"

definition rot_y :: "real \<Rightarrow> Point2d \<Rightarrow> real" where
  "rot_y theta pt = real_of_int (px pt) * sin theta + real_of_int (py pt) * cos theta"

definition rotated_extents :: "real \<Rightarrow> Point2d list \<Rightarrow> real \<times> real \<times> real \<times> real" where
  "rotated_extents theta component =
     foldl (\<lambda>(xmin, xmax, ymin, ymax) pt.
              let xtemp = rot_x theta pt; ytemp = rot_y theta pt
              in (min xtemp xmin, max xtemp xmax, min ytemp ymin, max ytemp ymax))
       (1000000, 0, 1000000, 0) component"

definition candidate :: "Point2d list \<Rightarrow> real \<Rightarrow> real \<times> real \<times> real" where
  "candidate component theta =
     (case rotated_extents theta component of (xmin, xmax, ymin, ymax) \<Rightarrow>
        let ltemp = xmax - xmin + 1; wtemp = ymax - ymin + 1
        in (ltemp * wtemp, ltemp, wtemp))"

definition rot_step :: "Point2d list \<Rightarrow> real \<Rightarrow> real \<times> real \<times> real \<Rightarrow> real \<times> real \<times> real" where
  "rot_step component theta alw =
     (if fst (candidate component theta) < fst alw then candidate component theta else alw)"

text \<open>
  The search for one component with the bounding box \<open>minx, miny, maxx, maxy\<close> that
  \<^verbatim>\<open>componentStats\<close> found: it starts from the axis-aligned box.
\<close>

definition rotated_box ::
  "fmode \<Rightarrow> Point2d list \<Rightarrow> int \<Rightarrow> int \<Rightarrow> int \<Rightarrow> int \<Rightarrow> (real \<times> real \<times> real) option" where
  "rotated_box m component minx miny maxx maxy =
     (let len = real_of_int (maxx - minx + 1);
          wid = real_of_int (maxy - miny + 1);
          area = len * wid
      in theta_loop m (rot_step component) (theta_start m) (area, len, wid))"





subsection \<open>Component filter, second pass (\<^verbatim>\<open>filterComponents\<close>)\<close>

text \<open>
  The five parallel output vectors of \<^verbatim>\<open>filterComponents\<close>. The second pass counts, for
  each first-pass survivor \<open>i\<close>, the other survivors whose centre lies in the box of \<open>i\<close>,
  and pushes entry \<open>i\<close> of every vector onto the temporaries when the count is below 2.
\<close>

record CompData =
  validComponents :: "Point2d list list"
  compCenters :: "Point2dFloat list"
  compMedians :: "real list"
  compDimensions :: "Point2d list"
  compBB :: "(Point2d \<times> Point2d) list"

definition inside_bb :: "Point2d \<times> Point2d \<Rightarrow> Point2dFloat \<Rightarrow> bool" where
  "inside_bb bb c \<longleftrightarrow>
     real_of_int (px (fst bb)) \<le> fx c \<and> real_of_int (px (snd bb)) \<ge> fx c
     \<and> real_of_int (py (fst bb)) \<le> fy c \<and> real_of_int (py (snd bb)) \<ge> fy c"

definition count_contained :: "CompData \<Rightarrow> nat \<Rightarrow> nat" where
  "count_contained d i =
     foldl (\<lambda>count j.
              if i \<noteq> j then
                (if inside_bb (compBB d ! i) (compCenters d ! j) then count + 1 else count)
              else count)
       0 [0..<length (validComponents d)]"

definition no_components :: CompData where
  "no_components = \<lparr>validComponents = [], compCenters = [], compMedians = [],
                     compDimensions = [], compBB = []\<rparr>"

definition push_component :: "CompData \<Rightarrow> nat \<Rightarrow> CompData \<Rightarrow> CompData" where
  "push_component d i t =
     \<lparr>validComponents = validComponents t @ [validComponents d ! i],
      compCenters = compCenters t @ [compCenters d ! i],
      compMedians = compMedians t @ [compMedians d ! i],
      compDimensions = compDimensions t @ [compDimensions d ! i],
      compBB = compBB t @ [compBB d ! i]\<rparr>"

definition containment_pass :: "CompData \<Rightarrow> CompData" where
  "containment_pass d =
     foldl (\<lambda>t i. if count_contained d i < 2 then push_component d i t else t)
       no_components [0..<length (validComponents d)]"

text \<open>
  The property as the specification words it: the other first-pass survivors whose centre
  lies inside the box of component \<open>i\<close>, the indices the filter keeps, and the parallel
  vectors restricted to a list of indices.
\<close>

definition others_inside ::
  "(Point2d \<times> Point2d) list \<Rightarrow> Point2dFloat list \<Rightarrow> nat \<Rightarrow> nat \<Rightarrow> nat list" where
  "others_inside bbs ctrs n i = filter (\<lambda>j. j \<noteq> i \<and> inside_bb (bbs ! i) (ctrs ! j)) [0..<n]"

definition kept_indices :: "CompData \<Rightarrow> nat list" where
  "kept_indices d =
     filter (\<lambda>i. length (others_inside (compBB d) (compCenters d) (length (validComponents d)) i) < 2)
       [0..<length (validComponents d)]"

definition select_components :: "CompData \<Rightarrow> nat list \<Rightarrow> CompData" where
  "select_components d is =
     \<lparr>validComponents = map ((!) (validComponents d)) is,
      compCenters = map ((!) (compCenters d)) is,
      compMedians = map ((!) (compMedians d)) is,
      compDimensions = map ((!) (compDimensions d)) is,
      compBB = map ((!) (compBB d)) is\<rparr>"


text \<open>Four first-pass survivors: the box of the first one holds the centres of the next two.\<close>

definition ex_survivors :: CompData where
  "ex_survivors =
     \<lparr>validComponents = [[], [], [], []],
      compCenters = [\<lparr>fx = 50, fy = 50\<rparr>, \<lparr>fx = 15, fy = 15\<rparr>, \<lparr>fx = 35, fy = 35\<rparr>,
                     \<lparr>fx = 205, fy = 5\<rparr>],
      compMedians = [4, 5, 6, 7],
      compDimensions = [\<lparr>px = 101, py = 101, SWT = 0\<rparr>, \<lparr>px = 11, py = 11, SWT = 0\<rparr>,
                        \<lparr>px = 11, py = 11, SWT = 0\<rparr>, \<lparr>px = 11, py = 11, SWT = 0\<rparr>],
      compBB = [(\<lparr>px = 0, py = 0, SWT = 0\<rparr>, \<lparr>px = 100, py = 100, SWT = 0\<rparr>),
                (\<lparr>px = 10, py = 10, SWT = 0\<rparr>, \<lparr>px = 20, py = 20, SWT = 0\<rparr>),
                (\<lparr>px = 30, py = 30, SWT = 0\<rparr>, \<lparr>px = 40, py = 40, SWT = 0\<rparr>),
                (\<lparr>px = 200, py = 0, SWT = 0\<rparr>, \<lparr>px = 210, py = 10, SWT = 0\<rparr>)]\<rparr>"

subsection \<open>Component filter as a whole (\<^verbatim>\<open>componentStats\<close>, \<^verbatim>\<open>filterComponents\<close>)\<close>

text \<open>
  \<^verbatim>\<open>componentStats\<close>: mean, variance and median of the stroke widths of a component, and
  its axis-aligned bounding box (the minima start at 1000000, the maxima at 0). For an
  empty component the code divides by zero and reads \<^verbatim>\<open>temp[0]\<close>; the components of the
  graph are not empty.
\<close>

definition componentStats ::
  "real IplImage \<Rightarrow> Point2d list \<Rightarrow> real \<times> real \<times> real \<times> int \<times> int \<times> int \<times> int" where
  "componentStats SWTImage component =
     (let temp = map (\<lambda>it. img_elem SWTImage (py it) (px it)) component;
          mean = foldl (+) 0 temp / real (length component);
          variance = foldl (\<lambda>v t. v + (t - mean) * (t - mean)) 0 temp / real (length component);
          miny = foldl (\<lambda>a it. min a (py it)) 1000000 component;
          minx = foldl (\<lambda>a it. min a (px it)) 1000000 component;
          maxy = foldl (\<lambda>a it. max a (py it)) 0 component;
          maxx = foldl (\<lambda>a it. max a (px it)) 0 component;
          median = sort temp ! (length temp div 2)
      in (mean, variance, median, minx, miny, maxx, maxy))"

text \<open>
  The body of the first loop for one component (\<^verbatim>\<open>NO_FILTER\<close> is defined, so the variance
  test is compiled out): the height test, the border test, the rotated-box search, the
  aspect-ratio test, and the five pushes. The dense representation the code fills in
  between is never read. The \<^verbatim>\<open>SWT\<close> field of the points pushed is not set by the code
  and is 0 here.
\<close>

definition first_pass_step ::
  "fmode \<Rightarrow> real IplImage \<Rightarrow> TextDetectionParams \<Rightarrow> CompData \<Rightarrow> Point2d list
     \<Rightarrow> CompData option" where
  "first_pass_step m SWTImage params d component =
     (case componentStats SWTImage component of
        (mean, variance, median, minx, miny, maxx, maxy) \<Rightarrow>
          if real_of_int (maxy - miny + 1) > 300 then Some d
          else if miny < topBorder params \<or> maxy > img_height SWTImage - bottomBorder params
          then Some d
          else
            case rotated_box m component minx miny maxx maxy of
              None \<Rightarrow> None
            | Some (area, len, wid) \<Rightarrow>
                if \<not> ratio_within m (to_float m (len / wid)) COM_MAX_ASPECT_RATIO then Some d
                else Some
                  \<lparr>validComponents = validComponents d @ [component],
                   compCenters = compCenters d
                     @ [\<lparr>fx = real_of_int (maxx + minx) / 2, fy = real_of_int (maxy + miny) / 2\<rparr>],
                   compMedians = compMedians d @ [median],
                   compDimensions = compDimensions d
                     @ [\<lparr>px = maxx - minx + 1, py = maxy - miny + 1, SWT = 0\<rparr>],
                   compBB = compBB d
                     @ [(\<lparr>px = minx, py = miny, SWT = 0\<rparr>, \<lparr>px = maxx, py = maxy, SWT = 0\<rparr>)]\<rparr>)"

text \<open>
  \<^verbatim>\<open>filterComponents\<close>, called with empty output vectors: the first loop over all
  components, then the containment pass, run once, over what the first loop pushed.
\<close>

definition filterComponents ::
  "fmode \<Rightarrow> real IplImage \<Rightarrow> Point2d list list \<Rightarrow> TextDetectionParams \<Rightarrow> CompData option" where
  "filterComponents m SWTImage comps params =
     map_option containment_pass
       (fold_option (first_pass_step m SWTImage params) no_components comps)"

subsection \<open>Chain builder (\<^verbatim>\<open>makeChains\<close>)\<close>

text \<open>
  \<^verbatim>\<open>makeChains\<close> reads the vectors \<^verbatim>\<open>filterComponents\<close> produced; they are passed as
  one \<open>CompData\<close>. The colour averages it computes first are only logged and are left
  out. \<^verbatim>\<open>square\<close> takes an \<^verbatim>\<open>int\<close>, so a float argument is truncated towards zero
  (\<open>trunc\<close>). \<^verbatim>\<open>const float strictness = PI / 6.0\<close> is a \<^verbatim>\<open>double\<close> quotient stored in a
  \<^verbatim>\<open>float\<close>. All arithmetic of this function is \<^verbatim>\<open>float\<close> arithmetic and is rounded in the
  mode \<open>m\<close>.
\<close>

definition trunc :: "real \<Rightarrow> int" where
  "trunc v = (if v \<ge> 0 then \<lfloor>v\<rfloor> else \<lceil>v\<rceil>)"

definition strictness :: "fmode \<Rightarrow> real" where
  "strictness m = to_float m (to_double m (PI_d m / 6))"

text \<open>
  The unit vector from the centre of component \<open>q\<close> to the centre of component \<open>p\<close> and
  the squared distance of the two centres, as the code computes them for a seed and after
  every merge (\<^verbatim>\<open>d_x / mag\<close>, \<^verbatim>\<open>d_y / mag\<close> and \<^verbatim>\<open>d_x * d_x + d_y * d_y\<close>). The square root
  is correctly rounded. For two equal centres the code divides zero by zero and stores
  NaN; here the direction is then \<open>(0, 0)\<close>, for which every angle test below fails as it
  does for NaN.
\<close>

definition chain_direction :: "fmode \<Rightarrow> CompData \<Rightarrow> nat \<Rightarrow> nat \<Rightarrow> Point2dFloat" where
  "chain_direction m d p q =
     (let d_x = to_float m (fx (compCenters d ! p) - fx (compCenters d ! q));
          d_y = to_float m (fy (compCenters d ! p) - fy (compCenters d ! q));
          mag = to_float m (sqrt (to_float m (to_float m (d_x * d_x) + to_float m (d_y * d_y))))
      in \<lparr>fx = to_float m (d_x / mag), fy = to_float m (d_y / mag)\<rparr>)"

definition chain_dist :: "fmode \<Rightarrow> CompData \<Rightarrow> nat \<Rightarrow> nat \<Rightarrow> real" where
  "chain_dist m d p q =
     (let d_x = to_float m (fx (compCenters d ! p) - fx (compCenters d ! q));
          d_y = to_float m (fy (compCenters d ! p) - fy (compCenters d ! q))
      in to_float m (to_float m (d_x * d_x) + to_float m (d_y * d_y)))"

text \<open>
  Step 1: the pairs \<open>i < j\<close> in loop order, the eligibility test and the seed chain pushed
  for an eligible pair. The \<^verbatim>\<open>merged\<close> flag is not set by the code before the first pass
  resets it; it is \<open>False\<close> here. \<^verbatim>\<open>dist\<close> is an \<^verbatim>\<open>int\<close> sum converted to \<^verbatim>\<open>float\<close>;
  \<^verbatim>\<open>dist / maxDim\<close> is compared with the \<^verbatim>\<open>double\<close> constant 1.6.
\<close>

definition seed_dist :: "fmode \<Rightarrow> CompData \<Rightarrow> nat \<Rightarrow> nat \<Rightarrow> real" where
  "seed_dist m d i j =
     to_float m (real_of_int
       (square (trunc (to_float m (fx (compCenters d ! i) - fx (compCenters d ! j))))
        + square (trunc (to_float m (fy (compCenters d ! i) - fy (compCenters d ! j))))))"

definition eligible :: "fmode \<Rightarrow> CompData \<Rightarrow> nat \<times> nat \<Rightarrow> bool" where
  "eligible m d ij =
     (case ij of (i, j) \<Rightarrow>
      let compMediansRatio = to_float m (compMedians d ! i / compMedians d ! j);
          compDimRatioY = to_float m (to_float m (real_of_int (py (compDimensions d ! i)))
                                      / to_float m (real_of_int (py (compDimensions d ! j))));
          compDimRatioX = to_float m (to_float m (real_of_int (px (compDimensions d ! i)))
                                      / to_float m (real_of_int (px (compDimensions d ! j))));
          dist = seed_dist m d i j;
          maxDim = to_float m (real_of_int
                     (square (max (min (px (compDimensions d ! i)) (py (compDimensions d ! i)))
                                  (min (px (compDimensions d ! j)) (py (compDimensions d ! j))))))
      in ratio_within m compMediansRatio COM_MAX_MEDIAN_RATIO
         \<and> ratio_within m compDimRatioY COM_MAX_DIM_RATIO
         \<and> ratio_within m compDimRatioX COM_MAX_DIM_RATIO
         \<and> to_float m (dist / maxDim) < to_double m COM_MAX_DIST_RATIO)"

definition seed_chain :: "fmode \<Rightarrow> CompData \<Rightarrow> nat \<times> nat \<Rightarrow> Chain" where
  "seed_chain m d ij =
     (case ij of (i, j) \<Rightarrow>
        \<lparr>cp = i, cq = j, dist = seed_dist m d i j, merged = False,
         direction = chain_direction m d i j, components = [i, j]\<rparr>)"

definition seed_pairs :: "nat \<Rightarrow> (nat \<times> nat) list" where
  "seed_pairs n = concat (map (\<lambda>i. map (\<lambda>j. (i, j)) [i + 1..<n]) [0..<n])"

definition seed_chains :: "fmode \<Rightarrow> CompData \<Rightarrow> Chain list" where
  "seed_chains m d =
     map (seed_chain m d) (filter (eligible m d) (seed_pairs (length (validComponents d))))"

text \<open>
  Step 2, one pair \<open>(i, j)\<close> of the double loop. The four branches of the code differ in
  the endpoint that is replaced and in the sign of the dot product under \<^verbatim>\<open>acos\<close>;
  \<open>try_merge\<close> returns the new chain \<open>i\<close> when the branch taken passes its angle test.
  \<open>merge_into\<close> is the common tail of the branches: new endpoints, the components of
  chain \<open>j\<close> appended, distance and direction recomputed from the new endpoints.
  \<open>angle_below m v\<close> is the test \<^verbatim>\<open>acos(v) < strictness\<close>: \<^verbatim>\<open>acos\<close> returns NaN for an
  argument outside \<open>[-1, 1]\<close> and a comparison with NaN is false; inside the interval it is
  the real function (the rounding of its result is not modelled).
\<close>

definition sharesOneEnd :: "Chain \<Rightarrow> Chain \<Rightarrow> bool" where
  "sharesOneEnd c0 c1 \<longleftrightarrow> cp c0 = cp c1 \<or> cp c0 = cq c1 \<or> cq c0 = cq c1 \<or> cq c0 = cp c1"

definition merge_into :: "fmode \<Rightarrow> CompData \<Rightarrow> Chain \<Rightarrow> Chain \<Rightarrow> nat \<Rightarrow> nat \<Rightarrow> Chain" where
  "merge_into m d ci cj p q =
     ci\<lparr>cp := p, cq := q, components := components ci @ components cj,
        dist := chain_dist m d p q, direction := chain_direction m d p q\<rparr>"

definition angle_below :: "fmode \<Rightarrow> real \<Rightarrow> bool" where
  "angle_below m v \<longleftrightarrow> - 1 \<le> v \<and> v \<le> 1 \<and> arccos v < strictness m"

definition aligned_same :: "fmode \<Rightarrow> Chain \<Rightarrow> Chain \<Rightarrow> bool" where
  "aligned_same m ci cj \<longleftrightarrow>
     angle_below m (to_float m (to_float m (fx (direction ci) * fx (direction cj))
                               + to_float m (fy (direction ci) * fy (direction cj))))"

definition aligned_opposite :: "fmode \<Rightarrow> Chain \<Rightarrow> Chain \<Rightarrow> bool" where
  "aligned_opposite m ci cj \<longleftrightarrow>
     angle_below m (to_float m (to_float m (fx (direction ci) * - fx (direction cj))
                               + to_float m (fy (direction ci) * - fy (direction cj))))"

definition try_merge :: "fmode \<Rightarrow> CompData \<Rightarrow> Chain \<Rightarrow> Chain \<Rightarrow> Chain option" where
  "try_merge m d ci cj =
     (if cp ci = cp cj then
        (if aligned_opposite m ci cj then Some (merge_into m d ci cj (cq cj) (cq ci)) else None)
      else if cp ci = cq cj then
        (if aligned_same m ci cj then Some (merge_into m d ci cj (cp cj) (cq ci)) else None)
      else if cq ci = cp cj then
        (if aligned_same m ci cj then Some (merge_into m d ci cj (cp ci) (cq cj)) else None)
      else if cq ci = cq cj then
        (if aligned_opposite m ci cj then Some (merge_into m d ci cj (cp ci) (cp cj)) else None)
      else None)"

definition merge_step ::
  "fmode \<Rightarrow> CompData \<Rightarrow> nat \<Rightarrow> Chain list \<times> nat \<Rightarrow> nat \<Rightarrow> Chain list \<times> nat" where
  "merge_step m d i s j =
     (case s of (chs, merges) \<Rightarrow>
        if i \<noteq> j \<and> \<not> merged (chs ! i) \<and> \<not> merged (chs ! j) \<and> sharesOneEnd (chs ! i) (chs ! j)
        then (case try_merge m d (chs ! i) (chs ! j) of
                None \<Rightarrow> (chs, merges)
              | Some c \<Rightarrow> (chs[i := c, j := (chs ! j)\<lparr>merged := True\<rparr>], merges + 1))
        else (chs, merges))"

text \<open>
  One full pass: reset the flags, run the double loop, keep the chains not merged and
  \<^verbatim>\<open>std::stable_sort\<close> them by descending component count. The result carries the number
  of merges of the pass.
\<close>

definition merge_pass :: "fmode \<Rightarrow> CompData \<Rightarrow> Chain list \<Rightarrow> Chain list \<times> nat" where
  "merge_pass m d chs0 =
     (let chs = map (\<lambda>c. c\<lparr>merged := False\<rparr>) chs0;
          n = length chs;
          (chs1, merges) = foldl (\<lambda>s i. foldl (merge_step m d i) s [0..<n]) (chs, 0) [0..<n];
          newchains = filter (\<lambda>c. \<not> merged c) chs1
      in (sort_key (\<lambda>c. - int (length (components c))) newchains, merges))"

text \<open>
  \<^verbatim>\<open>while (merges > 0)\<close>, entered with \<^verbatim>\<open>merges = 1\<close>: passes are repeated until one performs
  no merge. A loop that never stops is \<open>None\<close>.
\<close>

partial_function (option) merge_loop ::
  "fmode \<Rightarrow> CompData \<Rightarrow> Chain list \<Rightarrow> Chain list option" where
  "merge_loop m d chs =
     (case merge_pass m d chs of (chs', merges) \<Rightarrow>
        if merges > 0 then merge_loop m d chs' else Some chs')"

text \<open>
  Step 3: chains with at least 3 entries in their component list are kept, their list
  sorted and \<^verbatim>\<open>std::unique\<close>d. \<^verbatim>\<open>std::sort\<close> by \<^verbatim>\<open>dist\<close> before the loop is modelled by
  the stable sort; the theorems below hold for any order of the seeds.
\<close>

definition dedup_components :: "Chain \<Rightarrow> Chain" where
  "dedup_components c = c\<lparr>components := remdups_adj (sort (components c))\<rparr>"

definition accept_chains :: "Chain list \<Rightarrow> Chain list" where
  "accept_chains chs = map dedup_components (filter (\<lambda>c. length (components c) \<ge> 3) chs)"

definition makeChains :: "fmode \<Rightarrow> CompData \<Rightarrow> Chain list option" where
  "makeChains m d =
     (case merge_loop m d (sort_key dist (seed_chains m d)) of
        None \<Rightarrow> None
      | Some chs \<Rightarrow> Some (accept_chains chs))"

text \<open>
  Notions used in the statements and proofs: the count invariant of a pass; a chain is
  either an untouched seed (two different entries) or has at least 3 different components,
  and two seeds never have the same component set; a chain's endpoints differ and its
  direction is the one of its endpoints; \<open>mergeable\<close> is the condition under which the
  double loop merges a pair; \<open>no_merge\<close> says that for each of the four endpoint
  matchings that holds the corresponding angle test fails.
\<close>

definition pass_inv :: "nat \<Rightarrow> Chain list \<times> nat \<Rightarrow> bool" where
  "pass_inv n s \<longleftrightarrow> length (fst s) = n \<and> snd s = length (filter merged (fst s))"

definition chain_ok :: "Chain \<Rightarrow> bool" where
  "chain_ok c \<longleftrightarrow>
     (length (components c) = 2 \<and> card (set (components c)) = 2) \<or> 3 \<le> card (set (components c))"

definition seeds_differ :: "Chain \<Rightarrow> Chain \<Rightarrow> bool" where
  "seeds_differ a b \<longleftrightarrow>
     \<not> (length (components a) = 2 \<and> length (components b) = 2
        \<and> set (components a) = set (components b))"

definition pool_inv :: "Chain list \<Rightarrow> bool" where
  "pool_inv chs \<longleftrightarrow>
     (\<forall>c \<in> set chs. chain_ok c)
     \<and> (\<forall>i<length chs. \<forall>j<length chs. i \<noteq> j \<longrightarrow> seeds_differ (chs ! i) (chs ! j))"

definition chain_wf :: "fmode \<Rightarrow> CompData \<Rightarrow> Chain \<Rightarrow> bool" where
  "chain_wf m d c \<longleftrightarrow> cp c \<noteq> cq c \<and> direction c = chain_direction m d (cp c) (cq c)"

definition no_merge :: "fmode \<Rightarrow> Chain \<Rightarrow> Chain \<Rightarrow> bool" where
  "no_merge m a b \<longleftrightarrow>
     (cp a = cp b \<longrightarrow> \<not> aligned_opposite m a b) \<and> (cp a = cq b \<longrightarrow> \<not> aligned_same m a b)
     \<and> (cq a = cp b \<longrightarrow> \<not> aligned_same m a b) \<and> (cq a = cq b \<longrightarrow> \<not> aligned_opposite m a b)"

definition mergeable :: "fmode \<Rightarrow> CompData \<Rightarrow> Chain \<Rightarrow> Chain \<Rightarrow> bool" where
  "mergeable m d a b \<longleftrightarrow>
     \<not> merged a \<and> \<not> merged b \<and> sharesOneEnd a b \<and> try_merge m d a b \<noteq> None"

text \<open>
  Two runs: three equal components on a horizontal line (the two seeds merge into one
  chain), and the same components at the corners of a right angle (the seeds share
  component 1 but are perpendicular).
\<close>

definition box_pixels :: "int \<Rightarrow> int \<Rightarrow> int \<Rightarrow> int \<Rightarrow> real \<Rightarrow> Point2d list" where
  "box_pixels x0 y0 x1 y1 v =
     concat (map (\<lambda>y. map (\<lambda>x. \<lparr>px = x, py = y, SWT = v\<rparr>) [x0..x1]) [y0..y1])"

definition ex_line :: CompData where
  "ex_line =
     \<lparr>validComponents = [box_pixels 6 5 14 15 5, box_pixels 16 5 24 15 5, box_pixels 26 5 34 15 5],
      compCenters = [\<lparr>fx = 10, fy = 10\<rparr>, \<lparr>fx = 20, fy = 10\<rparr>, \<lparr>fx = 30, fy = 10\<rparr>],
      compMedians = [5, 5, 5],
      compDimensions = [\<lparr>px = 9, py = 11, SWT = 0\<rparr>, \<lparr>px = 9, py = 11, SWT = 0\<rparr>,
                        \<lparr>px = 9, py = 11, SWT = 0\<rparr>],
      compBB = [(\<lparr>px = 6, py = 5, SWT = 0\<rparr>, \<lparr>px = 14, py = 15, SWT = 0\<rparr>),
                (\<lparr>px = 16, py = 5, SWT = 0\<rparr>, \<lparr>px = 24, py = 15, SWT = 0\<rparr>),
                (\<lparr>px = 26, py = 5, SWT = 0\<rparr>, \<lparr>px = 34, py = 15, SWT = 0\<rparr>)]\<rparr>"

definition ex_corner :: CompData where
  "ex_corner =
     \<lparr>validComponents = [box_pixels 6 5 14 15 5, box_pixels 16 5 24 15 5, box_pixels 16 15 24 25 5],
      compCenters = [\<lparr>fx = 10, fy = 10\<rparr>, \<lparr>fx = 20, fy = 10\<rparr>, \<lparr>fx = 20, fy = 20\<rparr>],
      compMedians = [5, 5, 5],
      compDimensions = [\<lparr>px = 9, py = 11, SWT = 0\<rparr>, \<lparr>px = 9, py = 11, SWT = 0\<rparr>,
                        \<lparr>px = 9, py = 11, SWT = 0\<rparr>],
      compBB = [(\<lparr>px = 6, py = 5, SWT = 0\<rparr>, \<lparr>px = 14, py = 15, SWT = 0\<rparr>),
                (\<lparr>px = 16, py = 5, SWT = 0\<rparr>, \<lparr>px = 24, py = 15, SWT = 0\<rparr>),
                (\<lparr>px = 16, py = 15, SWT = 0\<rparr>, \<lparr>px = 24, py = 25, SWT = 0\<rparr>)]\<rparr>"

definition ex_seed01 :: Chain where
  "ex_seed01 = \<lparr>cp = 0, cq = 1, dist = 100, merged = False,
                 direction = \<lparr>fx = - 1, fy = 0\<rparr>, components = [0, 1]\<rparr>"

definition ex_seed12 :: Chain where
  "ex_seed12 = \<lparr>cp = 1, cq = 2, dist = 100, merged = False,
                 direction = \<lparr>fx = - 1, fy = 0\<rparr>, components = [1, 2]\<rparr>"

definition ex_seed12' :: Chain where
  "ex_seed12' = \<lparr>cp = 1, cq = 2, dist = 100, merged = False,
                 direction = \<lparr>fx = 0, fy = - 1\<rparr>, components = [1, 2]\<rparr>"

definition ex_chain02 :: Chain where
  "ex_chain02 = \<lparr>cp = 0, cq = 2, dist = 400, merged = False,
                 direction = \<lparr>fx = - 1, fy = 0\<rparr>, components = [0, 1, 1, 2]\<rparr>"

text \<open>
  A third run: three equal components on a slanted line, with the seed chains the code
  builds for it in single precision and in exact arithmetic. \<open>vector_angle\<close> is the angle
  between two direction vectors.
\<close>

definition ex_slant :: CompData where
  "ex_slant =
     \<lparr>validComponents = [box_pixels 25 195 35 205 4, box_pixels 26 208 36 218 4,
                        box_pixels 27 221 37 231 4],
      compCenters = [\<lparr>fx = 30, fy = 200\<rparr>, \<lparr>fx = 31, fy = 213\<rparr>, \<lparr>fx = 32, fy = 226\<rparr>],
      compMedians = [4, 4, 4],
      compDimensions = [\<lparr>px = 11, py = 11, SWT = 0\<rparr>, \<lparr>px = 11, py = 11, SWT = 0\<rparr>,
                        \<lparr>px = 11, py = 11, SWT = 0\<rparr>],
      compBB = [(\<lparr>px = 25, py = 195, SWT = 0\<rparr>, \<lparr>px = 35, py = 205, SWT = 0\<rparr>),
                (\<lparr>px = 26, py = 208, SWT = 0\<rparr>, \<lparr>px = 36, py = 218, SWT = 0\<rparr>),
                (\<lparr>px = 27, py = 221, SWT = 0\<rparr>, \<lparr>px = 37, py = 231, SWT = 0\<rparr>)]\<rparr>"

definition ex_slant_dir :: Point2dFloat where
  "ex_slant_dir = \<lparr>fx = - (5147015 / 67108864), fy = - (16727799 / 16777216)\<rparr>"

definition ex_slant01 :: Chain where
  "ex_slant01 = \<lparr>cp = 0, cq = 1, dist = 170, merged = False,
                  direction = ex_slant_dir, components = [0, 1]\<rparr>"

definition ex_slant12 :: Chain where
  "ex_slant12 = \<lparr>cp = 1, cq = 2, dist = 170, merged = False,
                  direction = ex_slant_dir, components = [1, 2]\<rparr>"

definition ex_exact01 :: Chain where
  "ex_exact01 = \<lparr>cp = 0, cq = 1, dist = 170, merged = False,
      direction = \<lparr>fx = - (1 / sqrt 170), fy = - (13 / sqrt 170)\<rparr>, components = [0, 1]\<rparr>"

definition ex_exact12 :: Chain where
  "ex_exact12 = \<lparr>cp = 1, cq = 2, dist = 170, merged = False,
      direction = \<lparr>fx = - (1 / sqrt 170), fy = - (13 / sqrt 170)\<rparr>, components = [1, 2]\<rparr>"

definition ex_exact02 :: Chain where
  "ex_exact02 = \<lparr>cp = 0, cq = 2, dist = 680, merged = False,
      direction = \<lparr>fx = - (1 / sqrt 170), fy = - (13 / sqrt 170)\<rparr>, components = [0, 1, 1, 2]\<rparr>"

definition vector_angle :: "Point2dFloat \<Rightarrow> Point2dFloat \<Rightarrow> real" where
  "vector_angle u v =
     arccos ((fx u * fx v + fy u * fy v)
             / (sqrt (fx u * fx u + fy u * fy u) * sqrt (fx v * fx v + fy v * fy v)))"

subsection \<open>Text acceptance (\<^verbatim>\<open>is_number\<close> and the end of \<^verbatim>\<open>renderChainsWithBoxes\<close>)\<close>

text \<open>\<^verbatim>\<open>std::isdigit\<close> and the \<^verbatim>\<open>std::isspace\<close> of \<^verbatim>\<open>boost::algorithm::trim\<close>, in the C locale.\<close>

definition isdigit :: "char \<Rightarrow> bool" where
  "isdigit c \<longleftrightarrow> (48::nat) \<le> of_char c \<and> of_char c \<le> (57::nat)"

definition isspace :: "char \<Rightarrow> bool" where
  "isspace c \<longleftrightarrow> (of_char c :: nat) = 32 \<or> ((9::nat) \<le> of_char c \<and> of_char c \<le> (13::nat))"

text \<open>The iterator loop of \<^verbatim>\<open>is_number\<close>: the result is the suffix the iterator stops at.\<close>

fun skip_digits :: "string \<Rightarrow> string" where
  "skip_digits [] = []"
| "skip_digits (c # cs) = (if isdigit c then skip_digits cs else c # cs)"

definition is_number :: "string \<Rightarrow> bool" where
  "is_number s \<longleftrightarrow> s \<noteq> [] \<and> skip_digits s = []"

definition trim :: "string \<Rightarrow> string" where
  "trim s = rev (dropWhile isspace (rev (dropWhile isspace s)))"

text \<open>
  The \<^verbatim>\<open>do { ... } while (0)\<close> block after \<^verbatim>\<open>tess.GetUTF8Text()\<close>: \<open>out\<close> is the C string
  returned by the OCR engine, \<open>ncomp\<close> is \<^verbatim>\<open>chains[i].components.size()\<close>, \<open>text\<close> the
  output vector so far. Every \<^verbatim>\<open>break\<close> leaves \<open>text\<close> as it is.
\<close>

definition accept_text :: "string \<Rightarrow> nat \<Rightarrow> string list \<Rightarrow> string list" where
  "accept_text out ncomp text =
     (if length out = 0 then text
      else let s_out = trim out in
        if length s_out \<noteq> ncomp then text
        else if \<not> is_number s_out then text
        else text @ [s_out])"

subsection \<open>Geometric acceptance and OCR hand-off (\<^verbatim>\<open>renderChainsWithBoxes\<close>)\<close>

text \<open>A \<^verbatim>\<open>CvPoint\<close> is a pair \<open>(x, y)\<close>; a bounding box is a pair of corner points.\<close>

type_synonym CvPoint = "int \<times> int"

text \<open>\<^verbatim>\<open>atan2\<close> of the C library, as the mathematical function.\<close>

definition atan2 :: "real \<Rightarrow> real \<Rightarrow> real" where
  "atan2 b a =
     (if a > 0 then arctan (b / a)
      else if a < 0 then (if b \<ge> 0 then arctan (b / a) + pi else arctan (b / a) - pi)
      else if b > 0 then pi / 2 else if b < 0 then - pi / 2 else 0)"

text \<open>
  \<^verbatim>\<open>findBoundingBoxes(chains, bbs, output)\<close>: the union box of a chain's components,
  starting from \<open>(width, height, 0, 0)\<close>.
\<close>

definition chain_box :: "int \<Rightarrow> int \<Rightarrow> (Point2d \<times> Point2d) list \<Rightarrow> Chain \<Rightarrow> CvPoint \<times> CvPoint" where
  "chain_box w h bbs c =
     (let (minx, miny, maxx, maxy) =
        foldl (\<lambda>(minx, miny, maxx, maxy) cit.
                 (min minx (px (fst (bbs ! cit))), min miny (py (fst (bbs ! cit))),
                  max maxx (px (snd (bbs ! cit))), max maxy (py (snd (bbs ! cit)))))
              (w, h, 0, 0) (components c)
      in ((minx, miny), (maxx, maxy)))"

definition findBoundingBoxes ::
  "Chain list \<Rightarrow> (Point2d \<times> Point2d) list \<Rightarrow> int \<Rightarrow> int \<Rightarrow> (CvPoint \<times> CvPoint) list" where
  "findBoundingBoxes chs bbs w h = map (chain_box w h bbs) chs"

text \<open>
  The height the acceptance stage uses for component \<open>j\<close>:
  \<^verbatim>\<open>compBB[j].second.y - compBB[j].first.y\<close>.
\<close>

definition comp_height :: "(Point2d \<times> Point2d) list \<Rightarrow> nat \<Rightarrow> int" where
  "comp_height bbs j = py (snd (bbs ! j)) - py (fst (bbs ! j))"

text \<open>
  \<^verbatim>\<open>minHeight\<close>: starts at the height of the chain's box and takes the minimum with each
  member component's height.
\<close>

definition chain_minHeight :: "(Point2d \<times> Point2d) list \<Rightarrow> CvPoint \<times> CvPoint \<Rightarrow> Chain \<Rightarrow> int" where
  "chain_minHeight bbs bb c =
     foldl (\<lambda>minHeight j. min minHeight (comp_height bbs j))
       (snd (snd bb) - snd (fst bb)) (components c)"

text \<open>
  One iteration of the loop over the chain boxes, up to \<^verbatim>\<open>tess.GetUTF8Text()\<close>: the result
  is \<open>None\<close> when the iteration ends with a \<^verbatim>\<open>continue\<close>, else the C string the OCR engine
  returned. \<open>w\<close> is \<^verbatim>\<open>output->width\<close>. The image operations between the angle test and the
  OCR call (thresholding, rotation, cropping, scaling, erosion, Tesseract) are the
  parameter \<open>ocr\<close>: it gets the chain index, the chain with its direction normalised and
  the angle in degrees, and returns \<open>None\<close> when the rotated region is empty (the
  \<^verbatim>\<open>continue\<close> on a null ROI) or the string that \<^verbatim>\<open>GetUTF8Text\<close> returned.
\<close>

definition ocr_stage ::
  "TextDetectionParams \<Rightarrow> int \<Rightarrow> (Point2d \<times> Point2d) list \<Rightarrow> (nat \<Rightarrow> Chain \<Rightarrow> real \<Rightarrow> string option)
     \<Rightarrow> (CvPoint \<times> CvPoint) list \<Rightarrow> Chain list \<Rightarrow> nat \<Rightarrow> string option" where
  "ocr_stage params w bbs ocr bb chs i =
     (if real_of_int (fst (snd (bb ! i)) - fst (fst (bb ! i)))
           < real_of_int w / maxImgWidthToTextRatio params then None
      else if chain_minHeight bbs (bb ! i) (chs ! i) < minCharacterheight params then None
      else
        let c = chs ! i;
            d = (if fx (direction c) < 0
                 then \<lparr>fx = - fx (direction c), fy = - fy (direction c)\<rparr> else direction c);
            theta_deg = 180 * atan2 (fy d) (fx d) / PI
        in if absd theta_deg > maxAngle params then None
           else ocr i (c\<lparr>direction := d\<rparr>) theta_deg)"

text \<open>
  The whole iteration, as a function from the text list before to the text list after:
  a \<^verbatim>\<open>continue\<close> leaves it unchanged, else the \<^verbatim>\<open>do { ... } while (0)\<close> block runs on the
  string returned, with \<^verbatim>\<open>chains[i].components.size()\<close> as the expected length.
\<close>

definition chain_step ::
  "TextDetectionParams \<Rightarrow> int \<Rightarrow> (Point2d \<times> Point2d) list \<Rightarrow> (nat \<Rightarrow> Chain \<Rightarrow> real \<Rightarrow> string option)
     \<Rightarrow> (CvPoint \<times> CvPoint) list \<Rightarrow> Chain list \<Rightarrow> string list \<Rightarrow> nat \<Rightarrow> string list" where
  "chain_step params w bbs ocr bb chs text i =
     (case ocr_stage params w bbs ocr bb chs i of
        None \<Rightarrow> text
      | Some out \<Rightarrow> accept_text out (length (components (chs ! i))) text)"

definition renderChainsWithBoxes ::
  "TextDetectionParams \<Rightarrow> int \<Rightarrow> int \<Rightarrow> (Point2d \<times> Point2d) list \<Rightarrow> (nat \<Rightarrow> Chain \<Rightarrow> real \<Rightarrow> string option)
     \<Rightarrow> Chain list \<Rightarrow> string list \<Rightarrow> string list" where
  "renderChainsWithBoxes params w h bbs ocr chs text =
     (let bb = findBoundingBoxes chs bbs w h
      in foldl (chain_step params w bbs ocr bb chs) text [0..<length bb])"



text \<open>
  The chain \<^verbatim>\<open>makeChains\<close> returns for the three components in a row of the chain
  builder's first example.
\<close>

definition ex_chain3 :: Chain where
  "ex_chain3 = ex_chain02\<lparr>components := [0, 1, 2]\<rparr>"

section \<open>Theorems\<close>

subsection \<open>Rounding modes\<close>

lemma exact_simps [simp]: "to_float exact v = v" "to_double exact v = v"
  by (simp_all add: exact_def)

lemmas ieee_eval = ieee_def round_bits_def expo2.simps pow2_def round_half_even_def

lemma pow2_pos [simp]: "0 < pow2 e"
  by (simp add: pow2_def)

lemma pow2_plus1: "pow2 (e + 1) = 2 * pow2 e"
proof (cases "0 \<le> e")
  case True
  then have "nat (e + 1) = Suc (nat e)" by simp
  then show ?thesis using True by (simp add: pow2_def)
next
  case False
  show ?thesis
  proof (cases "e = - 1")
    case True
    then show ?thesis by (simp add: pow2_def)
  next
    case False
    with \<open>\<not> 0 \<le> e\<close> have e: "e + 1 < 0" by simp
    then have "nat (- e) = Suc (nat (- (e + 1)))" by simp
    then show ?thesis using e by (simp add: pow2_def)
  qed
qed

lemma pow2_minus1: "pow2 (e - 1) = pow2 e / 2"
  using pow2_plus1 [of "e - 1"] by simp

lemma pow2_ge1: "0 \<le> e \<Longrightarrow> 1 \<le> pow2 e"
  by (simp add: pow2_def)

lemma pow2_le1: "e \<le> 0 \<Longrightarrow> pow2 e \<le> 1"
  by (simp add: pow2_def field_simps)

lemma expo2_eq:
  "0 < v \<Longrightarrow> pow2 e \<le> v \<Longrightarrow> v < pow2 (e + 1) \<Longrightarrow> expo2 v = e"
proof (induction v arbitrary: e rule: expo2.induct)
  case (1 v)
  show ?case
  proof (cases "2 \<le> v")
    case True
    have a: "pow2 (e - 1) \<le> v / 2" using "1.prems"(2) by (simp add: pow2_minus1)
    have b: "v / 2 < pow2 (e - 1 + 1)" using "1.prems"(3) by (simp add: pow2_plus1)
    have "expo2 (v / 2) = e - 1"
      using "1.prems"(1) True a b by (intro "1.IH"(1)) simp_all
    then show ?thesis using True "1.prems"(1) by (subst expo2.simps) simp
  next
    case False
    show ?thesis
    proof (cases "v < 1")
      case True
      have a: "pow2 (e + 1) \<le> v * 2" using "1.prems"(2) by (simp add: pow2_plus1)
      have "pow2 (e + 1 + 1) = 2 * pow2 (e + 1)" by (rule pow2_plus1)
      then have b: "v * 2 < pow2 (e + 1 + 1)" using "1.prems"(3) by linarith
      have "expo2 (v * 2) = e + 1"
        using "1.prems"(1) True False a b by (intro "1.IH"(2)) simp_all
      then show ?thesis using True False "1.prems"(1) by (subst expo2.simps) simp
    next
      case v: False
      have "e = 0"
      proof (rule ccontr)
        assume "e \<noteq> 0"
        then consider "1 \<le> e" | "e + 1 \<le> 0" by linarith
        then show False
        proof cases
          case 1
          then have "1 \<le> pow2 (e - 1)" by (intro pow2_ge1) simp
          then have "2 \<le> pow2 e" using pow2_minus1 [of e] by simp
          then show False using False "1.prems" by simp
        next
          case 2
          then have "pow2 (e + 1) \<le> 1" by (rule pow2_le1)
          then show False using v "1.prems" by simp
        qed
      qed
      then show ?thesis using v False "1.prems"(1) by (subst expo2.simps) simp
    qed
  qed
qed

lemma round_half_even_near:
  assumes "of_int n - 1 / 2 < w" "w < of_int n + 1 / 2"
  shows "round_half_even w = n"
proof (cases "w < of_int n")
  case True
  then have "\<lfloor>w\<rfloor> = n - 1" using assms by linarith
  then show ?thesis using assms True by (simp add: round_half_even_def Let_def)
next
  case False
  then have "\<lfloor>w\<rfloor> = n" using assms by linarith
  then show ?thesis using assms False by (simp add: round_half_even_def Let_def)
qed

lemma round_bits_near:
  assumes v: "0 < v" and e: "pow2 e \<le> v" "v < pow2 (e + 1)"
    and u: "u = pow2 (e - int p + 1)"
    and n: "(of_int n - 1 / 2) * u < v" "v < (of_int n + 1 / 2) * u"
  shows "round_bits p v = of_int n * u"
proof -
  have "expo2 v = e" using v e by (rule expo2_eq)
  moreover have "0 < u" by (simp add: u)
  then have "round_half_even (v / u) = n"
    using n by (intro round_half_even_near) (simp_all add: field_simps)
  ultimately show ?thesis using v u by (simp add: round_bits_def Let_def)
qed

lemma fl_sqrt_170: "to_float ieee (sqrt 170) = 6835879 / 524288"
proof -
  have lo: "27343515 / 2097152 < sqrt 170" by (rule real_less_rsqrt) (simp add: power2_eq_square)
  have hi: "sqrt 170 < 27343517 / 2097152" by (rule real_less_lsqrt) (simp_all add: power2_eq_square)
  have "round_bits 24 (sqrt 170) = of_int 13671758 * (1 / 2 ^ 20)"
  proof (rule round_bits_near [where e = 3])
    show "0 < sqrt 170" by simp
    show "pow2 3 \<le> sqrt 170" using lo by (simp add: pow2_def)
    show "sqrt 170 < pow2 (3 + 1)" using hi by (simp add: pow2_def)
    show "1 / 2 ^ 20 = pow2 (3 - int 24 + 1)" by (simp add: pow2_def)
    show "(of_int 13671758 - 1 / 2) * (1 / 2 ^ 20) < sqrt 170" using lo by simp
    show "sqrt 170 < (of_int 13671758 + 1 / 2) * (1 / 2 ^ 20)" using hi by simp
  qed
  then show ?thesis by (simp add: ieee_def)
qed


subsection \<open>Stroke widths along accepted rays\<close>

lemma img_elem_set_elem:
  "img_elem (set_elem img row col v) r c = (if r = row \<and> c = col then v else img_elem img r c)"
  by (simp add: set_elem_def)

lemma img_elem_swt_update:
  "img_elem (swt_update len img pit) r c =
     (if r = py pit \<and> c = px pit
      then (if img_elem img r c < 0 then len else min len (img_elem img r c))
      else img_elem img r c)"
  by (simp add: swt_update_def img_elem_set_elem)

lemma foldl_swt_update_old:
  assumes "0 \<le> len" and "0 \<le> img_elem img r c"
  shows "0 \<le> img_elem (foldl (swt_update len) img pts) r c
         \<and> img_elem (foldl (swt_update len) img pts) r c \<le> img_elem img r c"
  using assms(2)
proof (induction pts arbitrary: img)
  case Nil
  then show ?case by simp
next
  case (Cons pit pts)
  let ?img = "swt_update len img pit"
  have 1: "0 \<le> img_elem ?img r c" and 2: "img_elem ?img r c \<le> img_elem img r c"
    using Cons.prems assms(1) by (auto simp: img_elem_swt_update)
  show ?case using Cons.IH [OF 1] 2 by simp
qed

lemma foldl_swt_update_new:
  assumes "0 \<le> len" and "pt \<in> set pts"
  shows "0 \<le> img_elem (foldl (swt_update len) img pts) (py pt) (px pt)
         \<and> img_elem (foldl (swt_update len) img pts) (py pt) (px pt) \<le> len"
  using assms(2)
proof (induction pts arbitrary: img)
  case Nil
  then show ?case by simp
next
  case (Cons pit pts)
  let ?img = "swt_update len img pit"
  show ?case
  proof (cases "pt \<in> set pts")
    case True
    then show ?thesis using Cons.IH [of ?img] by simp
  next
    case False
    then have pit: "pit = pt" using Cons.prems by simp
    have 1: "0 \<le> img_elem ?img (py pt) (px pt)" and 2: "img_elem ?img (py pt) (px pt) \<le> len"
      using assms(1) by (auto simp: img_elem_swt_update pit)
    show ?thesis
      using foldl_swt_update_old [OF assms(1) 1, of pts] 2 by simp
  qed
qed

lemma ray_length_nonneg: "0 \<le> ray_length p q"
  by (simp add: ray_length_def)


lemma walk_steps:
  assumes "pX = \<lfloor>x\<rfloor>" "pY = \<lfloor>y\<rfloor>"
    and "\<lfloor>x + real n * (gx * prec)\<rfloor> \<noteq> pX \<or> \<lfloor>y + real n * (gy * prec)\<rfloor> \<noteq> pY"
    and "\<lfloor>x + real n * (gx * prec)\<rfloor> < 0 \<or> w \<le> \<lfloor>x + real n * (gx * prec)\<rfloor>
         \<or> \<lfloor>y + real n * (gy * prec)\<rfloor> < 0 \<or> h \<le> \<lfloor>y + real n * (gy * prec)\<rfloor>"
  shows "\<exists>r. walk edgeImage w h gx gy x y pX pY pts = Some r"
  using assms
proof (induction n arbitrary: x y pX pY pts)
  case 0
  then show ?case by simp
next
  case (Suc n)
  let ?x = "x + gx * prec" and ?y = "y + gy * prec"
  have fx: "x + real (Suc n) * (gx * prec) = ?x + real n * (gx * prec)"
    and fy: "y + real (Suc n) * (gy * prec) = ?y + real n * (gy * prec)"
    by (simp_all add: algebra_simps)
  note out = Suc.prems(4) [unfolded fx fy]
  show ?case
  proof (cases "\<lfloor>?x\<rfloor> \<noteq> pX \<or> \<lfloor>?y\<rfloor> \<noteq> pY")
    case False
    then have same: "pX = \<lfloor>?x\<rfloor>" "pY = \<lfloor>?y\<rfloor>" by simp_all
    have "\<exists>r. walk edgeImage w h gx gy ?x ?y pX pY pts = Some r"
      using same Suc.prems(3) [unfolded fx fy] out by (rule Suc.IH)
    then show ?thesis using False by (subst walk.simps) (simp add: Let_def)
  next
    case True
    show ?thesis
    proof (cases "\<lfloor>?x\<rfloor> < 0 \<or> w \<le> \<lfloor>?x\<rfloor> \<or> \<lfloor>?y\<rfloor> < 0 \<or> h \<le> \<lfloor>?y\<rfloor>")
      case outside: True
      then show ?thesis using True by (subst walk.simps) (auto simp: Let_def)
    next
      case inside: False
      let ?pnew = "\<lparr>px = \<lfloor>?x\<rfloor>, py = \<lfloor>?y\<rfloor>, SWT = 0\<rparr>"
      show ?thesis
      proof (cases "img_elem edgeImage \<lfloor>?y\<rfloor> \<lfloor>?x\<rfloor> > 0")
        case edge: True
        then show ?thesis using True inside by (subst walk.simps) (auto simp: Let_def)
      next
        case False
        have differs: "\<lfloor>?x + real n * (gx * prec)\<rfloor> \<noteq> \<lfloor>?x\<rfloor> \<or> \<lfloor>?y + real n * (gy * prec)\<rfloor> \<noteq> \<lfloor>?y\<rfloor>"
        proof (rule ccontr)
          assume "\<not> ?thesis"
          then have e: "\<lfloor>?x + real n * (gx * prec)\<rfloor> = \<lfloor>?x\<rfloor>" "\<lfloor>?y + real n * (gy * prec)\<rfloor> = \<lfloor>?y\<rfloor>"
            by simp_all
          show False using out [unfolded e] inside by blast
        qed
        have "\<exists>r. walk edgeImage w h gx gy ?x ?y \<lfloor>?x\<rfloor> \<lfloor>?y\<rfloor> (pts @ [?pnew]) = Some r"
          using refl refl differs out by (rule Suc.IH)
        then show ?thesis using True inside False by (subst walk.simps) (auto simp: Let_def)
      qed
    qed
  qed
qed

lemma prec_pos: "0 < prec"
  by (simp add: prec_def)

lemma escape:
  assumes "g \<noteq> 0"
  shows "\<exists>n. \<lfloor>x + real n * (g * prec)\<rfloor> \<noteq> p
            \<and> (\<lfloor>x + real n * (g * prec)\<rfloor> < 0 \<or> w \<le> \<lfloor>x + real n * (g * prec)\<rfloor>)"
proof (cases "0 < g")
  case True
  then have d: "0 < g * prec" using prec_pos by simp
  define B where "B = max (real_of_int w) (real_of_int p + 1)"
  obtain n where "(B - x) / (g * prec) \<le> real n" using real_arch_simple by blast
  then have "B \<le> x + real n * (g * prec)" using d by (simp add: field_simps)
  then have "real_of_int w \<le> x + real n * (g * prec)" "real_of_int (p + 1) \<le> x + real n * (g * prec)"
    by (simp_all add: B_def)
  then have "w \<le> \<lfloor>x + real n * (g * prec)\<rfloor>" "p + 1 \<le> \<lfloor>x + real n * (g * prec)\<rfloor>"
    by (simp_all only: le_floor_iff)
  then show ?thesis by (intro exI [of _ n]) simp
next
  case False
  then have d: "g * prec < 0" using assms prec_pos by (simp add: mult_neg_pos)
  define B where "B = min 0 (real_of_int p)"
  obtain n where "(x - B) / (- (g * prec)) < real n" using reals_Archimedean2 by blast
  then have "x + real n * (g * prec) < B" using d by (simp add: field_simps)
  then have "x + real n * (g * prec) < real_of_int 0" "x + real n * (g * prec) < real_of_int p"
    by (simp_all add: B_def)
  then have "\<lfloor>x + real n * (g * prec)\<rfloor> < 0" "\<lfloor>x + real n * (g * prec)\<rfloor> < p"
    by (simp_all only: floor_less_iff)
  then show ?thesis by (intro exI [of _ n]) simp
qed

lemma walk_total:
  assumes "gx \<noteq> 0 \<or> gy \<noteq> 0"
  shows "\<exists>r. walk edgeImage w h gx gy x y \<lfloor>x\<rfloor> \<lfloor>y\<rfloor> pts = Some r"
  using assms
proof
  assume "gx \<noteq> 0"
  from escape [OF this, of x "\<lfloor>x\<rfloor>" w] obtain n where
    "\<lfloor>x + real n * (gx * prec)\<rfloor> \<noteq> \<lfloor>x\<rfloor>"
    "\<lfloor>x + real n * (gx * prec)\<rfloor> < 0 \<or> w \<le> \<lfloor>x + real n * (gx * prec)\<rfloor>"
    by blast
  then show ?thesis by (intro walk_steps [where n = n]) auto
next
  assume "gy \<noteq> 0"
  from escape [OF this, of y "\<lfloor>y\<rfloor>" h] obtain n where
    "\<lfloor>y + real n * (gy * prec)\<rfloor> \<noteq> \<lfloor>y\<rfloor>"
    "\<lfloor>y + real n * (gy * prec)\<rfloor> < 0 \<or> h \<le> \<lfloor>y + real n * (gy * prec)\<rfloor>"
    by blast
  then show ?thesis by (intro walk_steps [where n = n]) auto
qed

lemma ray_direction_nonzero:
  assumes "ray_direction dark a b = Some (gx, gy)"
  shows "gx \<noteq> 0 \<or> gy \<noteq> 0"
proof -
  let ?mag = "sqrt (a * a + b * b)"
  have m: "?mag \<noteq> 0" using assms by (auto simp: ray_direction_def Let_def split: if_splits)
  then have "a \<noteq> 0 \<or> b \<noteq> 0" by auto
  moreover have "gx = - a / ?mag \<and> gy = - b / ?mag \<or> gx = a / ?mag \<and> gy = b / ?mag"
    using assms by (auto simp: ray_direction_def Let_def split: if_splits)
  ultimately show ?thesis using m by auto
qed

lemma cast_ray_total:
  "\<exists>s'. cast_ray edgeImage gradientX gradientY params s rc = Some s'"
proof -
  obtain img rays where s: "s = (img, rays)" by (cases s)
  obtain row col where rc: "rc = (row, col)" by (cases rc)
  show ?thesis
  proof (cases "ray_direction (darkOnLight params) (img_elem gradientX row col) (img_elem gradientY row col)")
    case None
    then show ?thesis by (simp add: cast_ray_def s rc)
  next
    case (Some g)
    obtain gx gy where g: "g = (gx, gy)" by (cases g)
    have nz: "gx \<noteq> 0 \<or> gy \<noteq> 0" using Some unfolding g by (rule ray_direction_nonzero)
    have fl: "\<lfloor>real_of_int col + 5 / 10\<rfloor> = col" "\<lfloor>real_of_int row + 5 / 10\<rfloor> = row"
      by linarith+
    obtain r where w: "walk edgeImage (img_width img) (img_height img) gx gy
        (real_of_int col + 5 / 10) (real_of_int row + 5 / 10) col row
        [\<lparr>px = col, py = row, SWT = 0\<rparr>] = Some r"
      using walk_total [OF nz, of edgeImage "img_width img" "img_height img"
          "real_of_int col + 5 / 10" "real_of_int row + 5 / 10" "[\<lparr>px = col, py = row, SWT = 0\<rparr>]"]
      unfolding fl by blast
    show ?thesis
      using w by (simp add: cast_ray_def s rc Some g Let_def split: option.splits)
  qed
qed

lemma fold_option_total:
  assumes "\<And>s a. \<exists>s'. f s a = Some s'"
  shows "\<exists>r. fold_option f s as = Some r"
proof (induction as arbitrary: s)
  case Nil
  then show ?case by simp
next
  case (Cons a as)
  obtain s' where "f s a = Some s'" using assms by blast
  then show ?case using Cons [of s'] by simp
qed

lemma strokeWidthTransform_total:
  "\<exists>r. strokeWidthTransform edgeImage gradientX gradientY params SWTImage rays = Some r"
  unfolding strokeWidthTransform_def by (rule fold_option_total) (rule cast_ray_total)


lemma cast_ray_cases:
  assumes "cast_ray edgeImage gradientX gradientY params (img, rays) (row, col) = Some s'"
  shows "s' = (img, rays)
    \<or> (\<exists>pts. s' = (foldl (swt_update (ray_length \<lparr>px = col, py = row, SWT = 0\<rparr> (last pts))) img pts,
                    rays @ [\<lparr>rp = \<lparr>px = col, py = row, SWT = 0\<rparr>, rq = last pts, points = pts\<rparr>]))"
  using assms unfolding cast_ray_def
  by (auto simp: Let_def split: if_splits option.splits prod.splits)

lemma cast_ray_inv:
  assumes "cast_ray edgeImage gradientX gradientY params s rc = Some s'" and "swt_inv s"
  shows "swt_inv s'"
proof -
  obtain img rays where s: "s = (img, rays)" by (cases s)
  obtain row col where rc: "rc = (row, col)" by (cases rc)
  let ?p = "\<lparr>px = col, py = row, SWT = 0\<rparr>"
  from cast_ray_cases [OF assms(1) [unfolded s rc]] show ?thesis
  proof
    assume "s' = (img, rays)"
    then show ?thesis using assms(2) s by simp
  next
    assume "\<exists>pts. s' = (foldl (swt_update (ray_length ?p (last pts))) img pts,
                        rays @ [\<lparr>rp = ?p, rq = last pts, points = pts\<rparr>])"
    then obtain pts where s': "s' = (foldl (swt_update (ray_length ?p (last pts))) img pts,
                        rays @ [\<lparr>rp = ?p, rq = last pts, points = pts\<rparr>])" by blast
    let ?len = "ray_length ?p (last pts)"
    have len: "0 \<le> ?len" by (rule ray_length_nonneg)
    show ?thesis
      unfolding swt_inv_def s'
    proof (intro ballI)
      fix r pt
      assume r: "r \<in> set (snd (foldl (swt_update ?len) img pts,
                        rays @ [\<lparr>rp = ?p, rq = last pts, points = pts\<rparr>]))"
        and pt: "pt \<in> set (points r)"
      show "0 \<le> img_elem (fst (foldl (swt_update ?len) img pts,
                        rays @ [\<lparr>rp = ?p, rq = last pts, points = pts\<rparr>])) (py pt) (px pt)
        \<and> img_elem (fst (foldl (swt_update ?len) img pts,
                        rays @ [\<lparr>rp = ?p, rq = last pts, points = pts\<rparr>])) (py pt) (px pt)
            \<le> ray_length (rp r) (rq r)"
      proof (cases "r \<in> set rays")
        case True
        then have old: "0 \<le> img_elem img (py pt) (px pt)"
          "img_elem img (py pt) (px pt) \<le> ray_length (rp r) (rq r)"
          using assms(2) pt by (auto simp: swt_inv_def s)
        show ?thesis
          using foldl_swt_update_old [OF len old(1), of pts] old(2) by simp
      next
        case False
        then have "r = \<lparr>rp = ?p, rq = last pts, points = pts\<rparr>" using r by simp
        then show ?thesis
          using foldl_swt_update_new [OF len, of pt pts img] pt by simp
      qed
    qed
  qed
qed

lemma foldl_swt_update_cases:
  "img_elem (foldl (swt_update len) img pts) r c = img_elem img r c
   \<or> (img_elem (foldl (swt_update len) img pts) r c = len \<and> (\<exists>pt \<in> set pts. py pt = r \<and> px pt = c))"
proof (induction pts arbitrary: img)
  case Nil
  then show ?case by simp
next
  case (Cons pit pts)
  let ?img = "swt_update len img pit"
  have 1: "img_elem ?img r c = img_elem img r c \<or> (img_elem ?img r c = len \<and> py pit = r \<and> px pit = c)"
    by (auto simp: img_elem_swt_update min_def)
  from Cons.IH [of ?img] show ?case
  proof
    assume "img_elem (foldl (swt_update len) ?img pts) r c = img_elem ?img r c"
    then show ?thesis using 1 by auto
  next
    assume "img_elem (foldl (swt_update len) ?img pts) r c = len \<and> (\<exists>pt \<in> set pts. py pt = r \<and> px pt = c)"
    then show ?thesis by auto
  qed
qed

lemma cast_ray_prov:
  assumes "cast_ray edgeImage gradientX gradientY params s rc = Some s'" and "swt_prov img0 s"
  shows "swt_prov img0 s'"
proof -
  obtain img rays where s: "s = (img, rays)" by (cases s)
  obtain row col where rc: "rc = (row, col)" by (cases rc)
  let ?p = "\<lparr>px = col, py = row, SWT = 0\<rparr>"
  from cast_ray_cases [OF assms(1) [unfolded s rc]] show ?thesis
  proof
    assume "s' = (img, rays)"
    then show ?thesis using assms(2) s by simp
  next
    assume "\<exists>pts. s' = (foldl (swt_update (ray_length ?p (last pts))) img pts,
                        rays @ [\<lparr>rp = ?p, rq = last pts, points = pts\<rparr>])"
    then obtain pts where s': "s' = (foldl (swt_update (ray_length ?p (last pts))) img pts,
                        rays @ [\<lparr>rp = ?p, rq = last pts, points = pts\<rparr>])" by blast
    let ?len = "ray_length ?p (last pts)"
    let ?new = "\<lparr>rp = ?p, rq = last pts, points = pts\<rparr>"
    show ?thesis
      unfolding swt_prov_def
    proof (intro allI)
      fix r c
      let ?v = "img_elem (fst s') r c"
      from foldl_swt_update_cases [of ?len img pts r c]
      show "?v = img_elem img0 r c
        \<or> (\<exists>ray \<in> set (snd s'). \<exists>pt \<in> set (points ray). py pt = r \<and> px pt = c
               \<and> ?v = ray_length (rp ray) (rq ray))"
      proof
        assume same: "img_elem (foldl (swt_update ?len) img pts) r c = img_elem img r c"
        from assms(2) [unfolded swt_prov_def s, rule_format, of r c]
        have "img_elem img r c = img_elem img0 r c
          \<or> (\<exists>ray \<in> set rays. \<exists>pt \<in> set (points ray). py pt = r \<and> px pt = c
                 \<and> img_elem img r c = ray_length (rp ray) (rq ray))"
          by simp
        then show ?thesis using same by (auto simp: s')
      next
        assume "img_elem (foldl (swt_update ?len) img pts) r c = ?len
                  \<and> (\<exists>pt \<in> set pts. py pt = r \<and> px pt = c)"
        then have "\<exists>pt \<in> set (points ?new). py pt = r \<and> px pt = c
               \<and> ?v = ray_length (rp ?new) (rq ?new)"
          by (auto simp: s')
        moreover have "?new \<in> set (snd s')" by (simp add: s')
        ultimately show ?thesis by blast
      qed
    qed
  qed
qed

lemma fold_option_inv:
  assumes "\<And>s a s'. f s a = Some s' \<Longrightarrow> P s \<Longrightarrow> P s'"
  shows "fold_option f s as = Some s' \<Longrightarrow> P s \<Longrightarrow> P s'"
proof (induction as arbitrary: s)
  case Nil
  then show ?case by simp
next
  case (Cons a as)
  then show ?case using assms by (auto split: option.splits)
qed


lemma strokeWidthTransform_inv:
  assumes "strokeWidthTransform edgeImage gradientX gradientY params SWTImage [] = Some s'"
  shows "swt_inv s'" "swt_prov SWTImage s'"
proof -
  have f: "fold_option (cast_ray edgeImage gradientX gradientY params) (SWTImage, [])
             (scan edgeImage) = Some s'"
    using assms by (simp add: strokeWidthTransform_def)
  have 0: "swt_inv (SWTImage, [])" by (simp add: swt_inv_def)
  show "swt_inv s'"
    by (rule fold_option_inv [where P = swt_inv, OF cast_ray_inv f 0])
  have 1: "swt_prov SWTImage (SWTImage, [])" by (simp add: swt_prov_def)
  show "swt_prov SWTImage s'"
    by (rule fold_option_inv [where P = "swt_prov SWTImage", OF cast_ray_prov f 1])
qed

lemma foldl_median_le:
  assumes "\<And>pit. pit \<in> set ps \<Longrightarrow> SWT pit = img_elem img0 (py pit) (px pit)"
    and "img_elem img r c \<le> img_elem img0 r c"
  shows "img_elem (foldl (\<lambda>img pit. set_elem img (py pit) (px pit) (min (SWT pit) median)) img ps) r c
           \<le> img_elem img0 r c"
  using assms
proof (induction ps arbitrary: img)
  case Nil
  then show ?case by simp
next
  case (Cons pit ps)
  let ?img = "set_elem img (py pit) (px pit) (min (SWT pit) median)"
  have "img_elem ?img r c \<le> img_elem img0 r c"
    using Cons.prems(1) [of pit] Cons.prems(2) by (auto simp: img_elem_set_elem)
  then show ?case using Cons.IH [of ?img] Cons.prems(1) by simp
qed

lemma ray_median_filter_le:
  "img_elem (fst (ray_median_filter img ray)) r c \<le> img_elem img r c"
  unfolding ray_median_filter_def Let_def fst_conv
  by (rule foldl_median_le) auto

lemma SWTMedianFilter_le:
  "img_elem (fst (SWTMedianFilter img rays)) r c \<le> img_elem img r c"
proof -
  have "img_elem (fst (foldl (\<lambda>(img, acc) r. case ray_median_filter img r of
            (img', r') \<Rightarrow> (img', acc @ [r'])) (img, acc) rays)) r c \<le> img_elem img r c" for acc
  proof (induction rays arbitrary: img acc)
    case Nil
    then show ?case by simp
  next
    case (Cons ray rays)
    obtain img1 ray1 where m: "ray_median_filter img ray = (img1, ray1)"
      by (cases "ray_median_filter img ray")
    have "img_elem img1 r c \<le> img_elem img r c"
      using ray_median_filter_le [of img ray r c] by (simp add: m)
    then show ?case using Cons.IH [of img1 "acc @ [ray1]"] by (simp add: m)
  qed
  then show ?thesis by (simp add: SWTMedianFilter_def)
qed


lemma foldl_median_ge:
  assumes "0 \<le> median" and "\<And>pit. pit \<in> set ps \<Longrightarrow> 0 \<le> SWT pit" and "0 \<le> img_elem img r c"
  shows "0 \<le> img_elem (foldl (\<lambda>img pit. set_elem img (py pit) (px pit) (min (SWT pit) median)) img ps) r c"
  using assms(2,3)
proof (induction ps arbitrary: img)
  case Nil
  then show ?case by simp
next
  case (Cons pit ps)
  let ?img = "set_elem img (py pit) (px pit) (min (SWT pit) median)"
  have "0 \<le> img_elem ?img r c"
    using Cons.prems(1) [of pit] Cons.prems(2) assms(1) by (auto simp: img_elem_set_elem)
  then show ?case using Cons.IH [of ?img] Cons.prems(1) by simp
qed

lemma ray_median_filter_ge:
  assumes ray: "\<And>pt. pt \<in> set (points ray) \<Longrightarrow> 0 \<le> img_elem img (py pt) (px pt)"
    and rc: "0 \<le> img_elem img r c"
  shows "0 \<le> img_elem (fst (ray_median_filter img ray)) r c"
proof (cases "points ray = []")
  case True
  then show ?thesis using rc by (simp add: ray_median_filter_def)
next
  case False
  let ?pts = "map (\<lambda>pit. pit\<lparr>SWT := img_elem img (py pit) (px pit)\<rparr>) (points ray)"
  let ?spts = "sort_key SWT ?pts"
  have all: "0 \<le> SWT pit" if "pit \<in> set ?spts" for pit
    using that ray by auto
  have "length ?spts div 2 < length ?spts" using False by simp
  then have "?spts ! (length ?spts div 2) \<in> set ?spts" by (rule nth_mem)
  then have med: "0 \<le> SWT (?spts ! (length ?spts div 2))" by (rule all)
  show ?thesis
    unfolding ray_median_filter_def Let_def fst_conv
    using med all rc by (rule foldl_median_ge)
qed

lemma SWTMedianFilter_ge:
  assumes "\<And>ray pt. ray \<in> set rays \<Longrightarrow> pt \<in> set (points ray) \<Longrightarrow> 0 \<le> img_elem img (py pt) (px pt)"
    and "ray \<in> set rays" "pt \<in> set (points ray)"
  shows "0 \<le> img_elem (fst (SWTMedianFilter img rays)) (py pt) (px pt)"
proof -
  let ?P = "\<lambda>img. \<forall>ray \<in> set rays. \<forall>pt \<in> set (points ray). 0 \<le> img_elem img (py pt) (px pt)"
  have "?P (fst (foldl (\<lambda>(img, acc) r. case ray_median_filter img r of
            (img', r') \<Rightarrow> (img', acc @ [r'])) (img, acc) rs))"
    if "set rs \<subseteq> set rays" "?P img" for rs img acc
    using that
  proof (induction rs arbitrary: img acc)
    case Nil
    then show ?case by simp
  next
    case (Cons r rs)
    obtain img1 r1 where m: "ray_median_filter img r = (img1, r1)"
      by (cases "ray_median_filter img r")
    have r: "r \<in> set rays" using Cons.prems(1) by simp
    have "?P img1"
    proof (intro ballI)
      fix ray pt assume "ray \<in> set rays" "pt \<in> set (points ray)"
      then have "0 \<le> img_elem img (py pt) (px pt)" using Cons.prems(2) by blast
      moreover have "\<And>q. q \<in> set (points r) \<Longrightarrow> 0 \<le> img_elem img (py q) (px q)"
        using Cons.prems(2) r by blast
      ultimately have "0 \<le> img_elem (fst (ray_median_filter img r)) (py pt) (px pt)"
        by (intro ray_median_filter_ge) 
      then show "0 \<le> img_elem img1 (py pt) (px pt)" by (simp add: m)
    qed
    then show ?case using Cons.IH [of img1 "acc @ [r1]"] Cons.prems(1) by (simp add: m)
  qed
  from this [of rays img "[]"] assms show ?thesis by (simp add: SWTMedianFilter_def)
qed

text \<open>
  C5. The transform (started with no rays) returns for every input. In the map \<open>swt1\<close> it
  returns, every pixel on the path of an accepted ray holds a value between 0 and that
  ray's Euclidean length, and every pixel of the map holds either the value it had before
  or the length of an accepted ray through it (the transform writes a pixel only by the
  min-update with the length of an accepted ray). The median filter never increases a
  value, so after it every pixel on the path of every accepted ray still holds a value
  between 0 and that ray's length.
\<close>

theorem C5_ray_pixels_bounded:
  "\<exists>swt1 rays.
     strokeWidthTransform edgeImage gradientX gradientY params SWTImage [] = Some (swt1, rays)
     \<and> (\<forall>r \<in> set rays. \<forall>pt \<in> set (points r).
          0 \<le> img_elem swt1 (py pt) (px pt)
          \<and> img_elem swt1 (py pt) (px pt) \<le> ray_length (rp r) (rq r)
          \<and> 0 \<le> img_elem (fst (SWTMedianFilter swt1 rays)) (py pt) (px pt)
          \<and> img_elem (fst (SWTMedianFilter swt1 rays)) (py pt) (px pt) \<le> ray_length (rp r) (rq r))
     \<and> (\<forall>row col. img_elem swt1 row col = img_elem SWTImage row col
          \<or> (\<exists>r \<in> set rays. \<exists>pt \<in> set (points r). py pt = row \<and> px pt = col
                \<and> img_elem swt1 row col = ray_length (rp r) (rq r)))
     \<and> (\<forall>row col. img_elem (fst (SWTMedianFilter swt1 rays)) row col \<le> img_elem swt1 row col)"
proof -
  obtain s where s: "strokeWidthTransform edgeImage gradientX gradientY params SWTImage [] = Some s"
    using strokeWidthTransform_total by blast
  obtain swt1 rays where p: "s = (swt1, rays)" by (cases s)
  note inv = strokeWidthTransform_inv [OF s, unfolded p]
  have b: "0 \<le> img_elem swt1 (py pt) (px pt)" "img_elem swt1 (py pt) (px pt) \<le> ray_length (rp r) (rq r)"
    if "r \<in> set rays" "pt \<in> set (points r)" for r pt
    using inv(1) that by (simp_all add: swt_inv_def)
  have 1: "\<forall>r \<in> set rays. \<forall>pt \<in> set (points r).
          0 \<le> img_elem swt1 (py pt) (px pt)
          \<and> img_elem swt1 (py pt) (px pt) \<le> ray_length (rp r) (rq r)
          \<and> 0 \<le> img_elem (fst (SWTMedianFilter swt1 rays)) (py pt) (px pt)
          \<and> img_elem (fst (SWTMedianFilter swt1 rays)) (py pt) (px pt) \<le> ray_length (rp r) (rq r)"
  proof (intro ballI conjI)
    fix r pt assume r: "r \<in> set rays" and pt: "pt \<in> set (points r)"
    show "0 \<le> img_elem swt1 (py pt) (px pt)" using r pt by (rule b(1))
    show "img_elem swt1 (py pt) (px pt) \<le> ray_length (rp r) (rq r)" using r pt by (rule b(2))
    show "0 \<le> img_elem (fst (SWTMedianFilter swt1 rays)) (py pt) (px pt)"
      using b(1) r pt by (rule SWTMedianFilter_ge)
    show "img_elem (fst (SWTMedianFilter swt1 rays)) (py pt) (px pt) \<le> ray_length (rp r) (rq r)"
      using SWTMedianFilter_le [of swt1 rays "py pt" "px pt"] b(2) [OF r pt] by simp
  qed
  have 2: "\<forall>row col. img_elem swt1 row col = img_elem SWTImage row col
          \<or> (\<exists>r \<in> set rays. \<exists>pt \<in> set (points r). py pt = row \<and> px pt = col
                \<and> img_elem swt1 row col = ray_length (rp r) (rq r))"
    using inv(2) by (simp add: swt_prov_def)
  have 3: "\<forall>row col. img_elem (fst (SWTMedianFilter swt1 rays)) row col \<le> img_elem swt1 row col"
    by (simp add: SWTMedianFilter_le)
  show ?thesis using s p 1 2 3 by blast
qed

lemma sqrt_9: "sqrt 9 = 3"
  by (rule real_sqrt_unique) simp_all

lemma ex_walk_right:
  "walk ex_edge 4 1 1 0 (1 / 2) (1 / 2) 0 0 [\<lparr>px = 0, py = 0, SWT = 0\<rparr>] = Some (Some (points ex_ray1))"
  by (simp add: walk.simps prec_def ex_edge_def Let_def ex_ray1_def)

lemma ex_walk_left:
  "walk ex_edge 4 1 (- 1) 0 (7 / 2) (1 / 2) 3 0 [\<lparr>px = 3, py = 0, SWT = 0\<rparr>] = Some (Some (points ex_ray2))"
  by (simp add: walk.simps prec_def ex_edge_def Let_def ex_ray2_def)

lemma swt_update_size [simp]:
  "img_width (swt_update len img pit) = img_width img"
  "img_height (swt_update len img pit) = img_height img"
  by (simp_all add: swt_update_def set_elem_def)

lemma foldl_swt_update_size [simp]:
  "img_width (foldl (swt_update len) img pts) = img_width img"
  "img_height (foldl (swt_update len) img pts) = img_height img"
  by (induction pts arbitrary: img) simp_all

lemma ex_direction:
  "ray_direction True (- 2) 0 = Some (1, 0)" "ray_direction True 2 0 = Some (- 1, 0)"
  "ray_direction dark 0 0 = None"
  by (simp_all add: ray_direction_def)

lemma ex_cast_left_edge:
  assumes "img_width img = 4" "img_height img = 1"
  shows "cast_ray ex_edge ex_gradX ex_gradY ex_params (img, rays) (0, 0)
          = Some (foldl (swt_update 3) img (points ex_ray1), rays @ [ex_ray1])"
proof -
  have e: "img_elem ex_edge 0 0 = 255" by (simp add: ex_edge_def)
  have g: "img_elem ex_gradX 0 0 = - 2" "img_elem ex_gradX 0 3 = 2"
    "img_elem ex_gradY 0 0 = 0" "img_elem ex_gradY 0 3 = 0"
    by (simp_all add: ex_gradX_def ex_gradY_def)
  have p: "darkOnLight ex_params" "maxStrokeLength ex_params = 20"
    by (simp_all add: ex_params_def)
  have l: "last (points ex_ray1) = \<lparr>px = 3, py = 0, SWT = 0\<rparr>"
    by (simp add: ex_ray1_def)
  have len: "ray_length \<lparr>px = 0, py = 0, SWT = 0\<rparr> \<lparr>px = 3, py = 0, SWT = 0\<rparr> = 3"
    by (simp add: ray_length_def sqrt_9)
  have r: "\<lparr>rp = \<lparr>px = 0, py = 0, SWT = 0\<rparr>, rq = \<lparr>px = 3, py = 0, SWT = 0\<rparr>,
            points = points ex_ray1\<rparr> = ex_ray1"
    by (simp add: ex_ray1_def)
  show ?thesis
    by (simp add: cast_ray_def e g p ex_direction assms ex_walk_right l len r PI_def)
qed

lemma ex_cast_right_edge:
  assumes "img_width img = 4" "img_height img = 1"
  shows "cast_ray ex_edge ex_gradX ex_gradY ex_params (img, rays) (0, 3)
          = Some (foldl (swt_update 3) img (points ex_ray2), rays @ [ex_ray2])"
proof -
  have e: "img_elem ex_edge 0 3 = 255" by (simp add: ex_edge_def)
  have g: "img_elem ex_gradX 0 0 = - 2" "img_elem ex_gradX 0 3 = 2"
    "img_elem ex_gradY 0 0 = 0" "img_elem ex_gradY 0 3 = 0"
    by (simp_all add: ex_gradX_def ex_gradY_def)
  have p: "darkOnLight ex_params" "maxStrokeLength ex_params = 20"
    by (simp_all add: ex_params_def)
  have l: "last (points ex_ray2) = \<lparr>px = 0, py = 0, SWT = 0\<rparr>"
    by (simp add: ex_ray2_def)
  have len: "ray_length \<lparr>px = 3, py = 0, SWT = 0\<rparr> \<lparr>px = 0, py = 0, SWT = 0\<rparr> = 3"
    by (simp add: ray_length_def sqrt_9)
  have r: "\<lparr>rp = \<lparr>px = 3, py = 0, SWT = 0\<rparr>, rq = \<lparr>px = 0, py = 0, SWT = 0\<rparr>,
            points = points ex_ray2\<rparr> = ex_ray2"
    by (simp add: ex_ray2_def)
  show ?thesis
    by (simp add: cast_ray_def e g p ex_direction assms ex_walk_left l len r PI_def)
qed

lemma ex_cast_inner:
  "cast_ray ex_edge ex_gradX ex_gradY ex_params s (0, 1) = Some s"
  "cast_ray ex_edge ex_gradX ex_gradY ex_params s (0, 2) = Some s"
  by (simp_all add: cast_ray_def ex_edge_def split: prod.splits)

lemma ex_transform:
  "strokeWidthTransform ex_edge ex_gradX ex_gradY ex_params ex_unset []
     = Some (foldl (swt_update 3) (foldl (swt_update 3) ex_unset (points ex_ray1)) (points ex_ray2),
             [ex_ray1, ex_ray2])"
proof -
  have sc: "scan ex_edge = [(0, 0), (0, 1), (0, 2), (0, 3)]"
    by (simp add: scan_def ex_edge_def upto.simps)
  have sz: "img_width ex_unset = 4" "img_height ex_unset = 1"
    by (simp_all add: ex_unset_def)
  show ?thesis
    by (simp add: strokeWidthTransform_def sc ex_cast_left_edge ex_cast_right_edge ex_cast_inner sz)
qed

lemma ex_ray1_length: "ray_length (rp ex_ray1) (rq ex_ray1) = 3"
  by (simp add: ex_ray1_def ray_length_def sqrt_9)



lemma ex_zero_gradient:
  "strokeWidthTransform ex_edge ex_gradY ex_gradY ex_params ex_unset [] = Some (ex_unset, [])"
proof -
  have sc: "scan ex_edge = [(0, 0), (0, 1), (0, 2), (0, 3)]"
    by (simp add: scan_def ex_edge_def upto.simps)
  have g: "img_elem ex_gradY row col = 0" for row col
    by (simp add: ex_gradY_def)
  have "cast_ray ex_edge ex_gradY ex_gradY ex_params s rc = Some s" for s rc
    by (simp add: cast_ray_def g ex_direction split: prod.splits)
  then show ?thesis by (simp add: strokeWidthTransform_def sc)
qed

lemma ex_swt1_pixel:
  "img_elem (foldl (swt_update 3) (foldl (swt_update 3) ex_unset (points ex_ray1)) (points ex_ray2)) 0 1 = 3"
  by (simp add: ex_ray1_def ex_ray2_def img_elem_swt_update ex_unset_def)

theorem C5_ray_pixels_bounded_witness:
  "strokeWidthTransform ex_edge ex_gradX ex_gradY ex_params ex_unset []
     = Some (foldl (swt_update 3) (foldl (swt_update 3) ex_unset (points ex_ray1)) (points ex_ray2),
             [ex_ray1, ex_ray2])
   \<and> ray_length (rp ex_ray1) (rq ex_ray1) = 3
   \<and> img_elem ex_unset 0 1 = - 1
   \<and> img_elem (foldl (swt_update 3) (foldl (swt_update 3) ex_unset (points ex_ray1)) (points ex_ray2)) 0 1 = 3
   \<and> 0 \<le> img_elem (fst (SWTMedianFilter
              (foldl (swt_update 3) (foldl (swt_update 3) ex_unset (points ex_ray1)) (points ex_ray2))
              [ex_ray1, ex_ray2])) 0 1
   \<and> img_elem (fst (SWTMedianFilter
              (foldl (swt_update 3) (foldl (swt_update 3) ex_unset (points ex_ray1)) (points ex_ray2))
              [ex_ray1, ex_ray2])) 0 1 \<le> 3
   \<and> strokeWidthTransform ex_edge ex_gradY ex_gradY ex_params ex_unset [] = Some (ex_unset, [])"
proof -
  let ?swt1 = "foldl (swt_update 3) (foldl (swt_update 3) ex_unset (points ex_ray1)) (points ex_ray2)"
  let ?pt = "\<lparr>px = 1, py = 0, SWT = 0\<rparr>"
  have pt: "?pt \<in> set (points ex_ray1)"
    by (simp add: ex_ray1_def)
  from C5_ray_pixels_bounded [of ex_edge ex_gradX ex_gradY ex_params ex_unset]
  obtain swt1 rays where
    t: "strokeWidthTransform ex_edge ex_gradX ex_gradY ex_params ex_unset [] = Some (swt1, rays)"
    and b: "\<forall>r \<in> set rays. \<forall>pt \<in> set (points r).
          0 \<le> img_elem swt1 (py pt) (px pt)
          \<and> img_elem swt1 (py pt) (px pt) \<le> ray_length (rp r) (rq r)
          \<and> 0 \<le> img_elem (fst (SWTMedianFilter swt1 rays)) (py pt) (px pt)
          \<and> img_elem (fst (SWTMedianFilter swt1 rays)) (py pt) (px pt) \<le> ray_length (rp r) (rq r)"
    by (elim exE conjE)
  have e: "swt1 = ?swt1" "rays = [ex_ray1, ex_ray2]"
    using t by (simp_all add: ex_transform)
  have "ex_ray1 \<in> set rays" by (simp add: e)
  then have "0 \<le> img_elem (fst (SWTMedianFilter swt1 rays)) (py ?pt) (px ?pt)
      \<and> img_elem (fst (SWTMedianFilter swt1 rays)) (py ?pt) (px ?pt) \<le> ray_length (rp ex_ray1) (rq ex_ray1)"
    using b pt by blast
  then have "0 \<le> img_elem (fst (SWTMedianFilter ?swt1 [ex_ray1, ex_ray2])) 0 1
      \<and> img_elem (fst (SWTMedianFilter ?swt1 [ex_ray1, ex_ray2])) 0 1 \<le> 3"
    by (simp add: e ex_ray1_length)
  moreover have "img_elem ex_unset 0 1 = - 1" by (simp add: ex_unset_def)
  ultimately show ?thesis
    using ex_transform ex_ray1_length ex_swt1_pixel ex_zero_gradient by simp
qed

subsection \<open>Connected components\<close>

lemma set_scan: "set (scan img) = {0..img_height img - 1} \<times> {0..img_width img - 1}"
  by (auto simp: scan_def)

lemma scan_product: "scan img = List.product [0..img_height img - 1] [0..img_width img - 1]"
  by (simp add: scan_def product_concat_map)

lemma distinct_scan: "distinct (scan img)"
  by (simp add: scan_product distinct_product)

lemma inj_point_of: "inj point_of"
  by (auto simp: inj_on_def point_of_def prod_eq_iff)

lemma point_of_eq_iff: "point_of a = point_of b \<longleftrightarrow> a = b"
  by (auto simp: point_of_def prod_eq_iff)

lemma distinct_positive_pixels: "distinct (positive_pixels img)"
  by (simp add: positive_pixels_def distinct_scan)

lemma number_step_count:
  "snd (snd (foldl (number_step img) (m, rm, nv) xs))
     = nv + length (filter (\<lambda>rc. img_elem img (fst rc) (snd rc) > 0) xs)"
  by (induction xs arbitrary: m rm nv) (auto simp: number_step_def)

lemma number_step_unfold:
  "foldl (number_step img) (m, rm, nv) ((row, col) # xs) =
     (if img_elem img row col > 0
      then foldl (number_step img) (m(row * img_width img + col \<mapsto> nv),
          rm(nv \<mapsto> \<lparr>px = col, py = row, SWT = 0\<rparr>), nv + 1) xs
      else foldl (number_step img) (m, rm, nv) xs)"
  by (simp add: number_step_def)

lemma number_step_revmap:
  "fst (snd (foldl (number_step img) (m, rm, nv) xs)) j
     = (let ps = filter (\<lambda>rc. img_elem img (fst rc) (snd rc) > 0) xs
        in if nv \<le> j \<and> j < nv + length ps then Some (point_of (ps ! (j - nv))) else rm j)"
proof (induction xs arbitrary: m rm nv)
  case Nil
  then show ?case by (auto simp: Let_def)
next
  case (Cons rc xs)
  obtain row col where rc: "rc = (row, col)" by (cases rc)
  let ?ps = "filter (\<lambda>rc. img_elem img (fst rc) (snd rc) > 0) xs"
  show ?case
  proof (cases "img_elem img row col > 0")
    case True
    let ?rm = "rm(nv \<mapsto> \<lparr>px = col, py = row, SWT = 0\<rparr>)"
    have *: "fst (snd (foldl (number_step img) (m, rm, nv) (rc # xs))) j
      = (if nv + 1 \<le> j \<and> j < nv + 1 + length ?ps
         then Some (point_of (?ps ! (j - (nv + 1)))) else ?rm j)"
      unfolding rc number_step_unfold using True by (simp only: if_True Cons.IH Let_def)
    have ps: "filter (\<lambda>rc. img_elem img (fst rc) (snd rc) > 0) (rc # xs) = rc # ?ps"
      using True by (simp add: rc)
    consider "j < nv" | "j = nv" | "nv < j"
      by linarith
    then show ?thesis
    proof cases
      case 1
      then show ?thesis unfolding * ps Let_def by simp
    next
      case 2
      then show ?thesis unfolding * ps Let_def by (simp add: point_of_def rc)
    next
      case 3
      then have "(rc # ?ps) ! (j - nv) = ?ps ! (j - (nv + 1))"
        by (simp add: nth_Cons')
      then show ?thesis unfolding * ps Let_def using 3 by auto
    qed
  next
    case False
    have *: "fst (snd (foldl (number_step img) (m, rm, nv) (rc # xs))) j
      = (if nv \<le> j \<and> j < nv + length ?ps
         then Some (point_of (?ps ! (j - nv))) else rm j)"
      unfolding rc number_step_unfold using False by (simp only: if_False Cons.IH Let_def)
    have ps: "filter (\<lambda>rc. img_elem img (fst rc) (snd rc) > 0) (rc # xs) = ?ps"
      using False by (simp add: rc)
    show ?thesis unfolding * ps Let_def by simp
  qed
qed

lemma number_step_dom:
  "dom (fst (foldl (number_step img) (m, rm, nv) xs))
     = dom m \<union> (\<lambda>rc. fst rc * img_width img + snd rc) `
         set (filter (\<lambda>rc. img_elem img (fst rc) (snd rc) > 0) xs)"
proof (induction xs arbitrary: m rm nv)
  case Nil
  then show ?case by simp
next
  case (Cons rc xs)
  obtain row col where rc: "rc = (row, col)" by (cases rc)
  show ?case
  proof (cases "img_elem img row col > 0")
    case True
    have "dom (fst (foldl (number_step img) (m, rm, nv) (rc # xs)))
      = dom (m(row * img_width img + col \<mapsto> nv)) \<union> (\<lambda>rc. fst rc * img_width img + snd rc) `
         set (filter (\<lambda>rc. img_elem img (fst rc) (snd rc) > 0) xs)"
      unfolding rc number_step_unfold using True by (simp only: if_True Cons.IH)
    then show ?thesis using True by (simp add: rc)
  next
    case False
    have "dom (fst (foldl (number_step img) (m, rm, nv) (rc # xs)))
      = dom m \<union> (\<lambda>rc. fst rc * img_width img + snd rc) `
         set (filter (\<lambda>rc. img_elem img (fst rc) (snd rc) > 0) xs)"
      unfolding rc number_step_unfold using False by (simp only: if_False Cons.IH)
    then show ?thesis using False by (simp add: rc)
  qed
qed

lemma number_vertices_facts:
  assumes "number_vertices img = (m, rm, nv)"
  shows "nv = length (positive_pixels img)"
    and "\<And>j. j < nv \<Longrightarrow> rm j = Some (point_of (positive_pixels img ! j))"
    and "dom m = (\<lambda>rc. fst rc * img_width img + snd rc) ` set (positive_pixels img)"
proof -
  show nv: "nv = length (positive_pixels img)"
    using number_step_count [of img Map.empty Map.empty 0 "scan img"] assms
    by (simp add: number_vertices_def positive_pixels_def)
  show "rm j = Some (point_of (positive_pixels img ! j))" if "j < nv" for j
    using number_step_revmap [of img Map.empty Map.empty 0 "scan img" j] assms that nv
    by (simp add: number_vertices_def positive_pixels_def Let_def)
  show "dom m = (\<lambda>rc. fst rc * img_width img + snd rc) ` set (positive_pixels img)"
    using number_step_dom [of img Map.empty Map.empty 0 "scan img"] assms
    by (simp add: number_vertices_def positive_pixels_def)
qed

lemma built_add:
  "built g \<Longrightarrow> (cond \<Longrightarrow> key \<in> dom m) \<Longrightarrow> built (if cond then add_edge_at u m key g else g)"
  by (auto simp: built_def add_edge_at_def)

lemma pixel_edges_built:
  assumes g: "built g" and rc: "(row, col) \<in> set (scan img)"
    and dom: "\<And>r c. (r, c) \<in> set (scan img) \<Longrightarrow> img_elem img r c > 0
                \<Longrightarrow> r * img_width img + c \<in> dom m"
  shows "built (pixel_edges img m g (row, col))"
proof -
  let ?w = "img_width img" and ?h = "img_height img" and ?a = "img_elem img row col"
  let ?u = "case m (row * ?w + col) of Some v \<Rightarrow> v | None \<Rightarrow> 0"
  let ?g1 = "if col + 1 < ?w \<and> legally_connected ?a (img_elem img row (col + 1))
             then add_edge_at ?u m (row * ?w + col + 1) g else g"
  let ?g2 = "if col + 1 < ?w \<and> legally_connected ?a (img_elem img (row + 1) (col + 1))
             then add_edge_at ?u m ((row + 1) * ?w + col + 1) ?g1 else ?g1"
  let ?g3 = "if legally_connected ?a (img_elem img (row + 1) col)
             then add_edge_at ?u m ((row + 1) * ?w + col) ?g2 else ?g2"
  let ?g4 = "if col - 1 \<ge> 0 \<and> legally_connected ?a (img_elem img (row + 1) (col - 1))
             then add_edge_at ?u m ((row + 1) * ?w + col - 1) ?g3 else ?g3"
  have b: "0 \<le> row" "row < ?h" "0 \<le> col" "col < ?w"
    using rc by (auto simp: set_scan)
  have key: "r * ?w + c \<in> dom m"
    if "0 \<le> r" "r < ?h" "0 \<le> c" "c < ?w" "legally_connected ?a (img_elem img r c)" for r c
    using that by (intro dom) (auto simp: set_scan legally_connected_def)
  have g1: "built ?g1"
    using key [of row "col + 1"] b by (intro built_add g) (auto simp: add.assoc)
  have g2: "row + 1 < ?h \<Longrightarrow> built ?g2"
    using key [of "row + 1" "col + 1"] b by (intro built_add g1) (auto simp: add.assoc)
  have g3: "row + 1 < ?h \<Longrightarrow> built ?g3"
    using key [of "row + 1" col] b by (intro built_add g2) auto
  have g4: "row + 1 < ?h \<Longrightarrow> built ?g4"
    using key [of "row + 1" "col - 1"] b by (intro built_add g3) (auto simp: algebra_simps)
  have "pixel_edges img m g (row, col) =
          (if ?a > 0 then (if row + 1 < ?h then ?g4 else ?g1) else g)"
    by (simp add: pixel_edges_def Let_def)
  then show ?thesis using g g1 g4 by simp
qed

lemma build_graph_built:
  assumes dom: "\<And>r c. (r, c) \<in> set (scan img) \<Longrightarrow> img_elem img r c > 0
                \<Longrightarrow> r * img_width img + c \<in> dom m"
  shows "built (build_graph img m)"
proof -
  have "built g \<Longrightarrow> set xs \<subseteq> set (scan img) \<Longrightarrow> built (foldl (pixel_edges img m) g xs)" for g xs
  proof (induction xs arbitrary: g)
    case Nil
    then show ?case by simp
  next
    case (Cons rc xs)
    obtain row col where rc: "rc = (row, col)" by (cases rc)
    have "built (pixel_edges img m g rc)"
      unfolding rc using Cons.prems dom by (intro pixel_edges_built) (auto simp: rc)
    then show ?case using Cons by simp
  qed
  then show ?thesis unfolding build_graph_def by (simp add: built_def)
qed

lemma length_foldl_update [simp]: "length (foldl (\<lambda>xs u. xs[u := f u]) xs us) = length xs"
  by (induction us arbitrary: xs) auto

lemma nth_foldl_update_const:
  "j < length xs \<Longrightarrow> foldl (\<lambda>xs u. xs[u := k]) xs us ! j = (if j \<in> set us then k else xs ! j)"
  by (induction us arbitrary: xs) (auto simp: nth_list_update)

lemma set_grow: "set vs \<subseteq> set (grow es vs)"
  by (auto simp: grow_def)

lemma self_reachable: "v \<in> set (reachable n es v)"
proof -
  have "v \<in> set vs \<Longrightarrow> v \<in> set ((grow es ^^ k) vs)" for k vs
    using set_grow by (induction k) auto
  then show ?thesis by (simp add: reachable_def)
qed

lemma cc_visit_inv:
  assumes inv: "cc_inv n s" and v: "v < n"
  shows "cc_inv n (cc_visit n es s v)"
    and "fst (snd (cc_visit n es s v)) ! v"
    and "\<And>j. j < n \<Longrightarrow> fst (snd s) ! j \<Longrightarrow> fst (snd (cc_visit n es s v)) ! j"
proof -
  obtain num seen c where s: "s = (num, seen, c)" by (cases s)
  have len: "length seen = n" "length c = n" and lab: "\<And>j. j < n \<Longrightarrow> seen ! j \<Longrightarrow> c ! j < num"
    using inv by (auto simp: cc_inv_def s)
  let ?vs = "filter (\<lambda>u. u < n \<and> \<not> seen ! u) (reachable n es v)"
  let ?seen = "foldl (\<lambda>seen u. seen[u := True]) seen ?vs"
  let ?c = "foldl (\<lambda>c u. c[u := num]) c ?vs"
  have seen': "?seen ! j = (seen ! j \<or> j \<in> set ?vs)" if "j < n" for j
    using that len nth_foldl_update_const [of j seen True ?vs] by auto
  have c': "?c ! j = (if j \<in> set ?vs then num else c ! j)" if "j < n" for j
    using that len nth_foldl_update_const [of j c num ?vs] by auto
  show "cc_inv n (cc_visit n es s v)"
  proof (cases "seen ! v")
    case True
    then show ?thesis using inv by (simp add: cc_visit_def s)
  next
    case False
    have "cc_inv n (num + 1, ?seen, ?c)"
      unfolding cc_inv_def using len lab seen' c' by (auto simp: less_Suc_eq)
    then show ?thesis using False by (simp add: cc_visit_def s Let_def)
  qed
  show "fst (snd (cc_visit n es s v)) ! v"
  proof (cases "seen ! v")
    case True
    then show ?thesis by (simp add: cc_visit_def s)
  next
    case False
    then have "v \<in> set ?vs" using v self_reachable [of v n es] by simp
    then have "?seen ! v" using seen' [OF v] by simp
    then show ?thesis using False by (simp add: cc_visit_def s Let_def)
  qed
  show "fst (snd (cc_visit n es s v)) ! j" if "j < n" "fst (snd s) ! j" for j
  proof (cases "seen ! v")
    case True
    then show ?thesis using that by (simp add: cc_visit_def s)
  next
    case False
    have "?seen ! j" using seen' [OF that(1)] that(2) by (simp add: s)
    then show ?thesis using False by (simp add: cc_visit_def s Let_def)
  qed
qed

lemma cc_fold_inv:
  assumes "cc_inv n s" and "set vs \<subseteq> {..<n}"
  shows "cc_inv n (foldl (cc_visit n es) s vs)
         \<and> (\<forall>j<n. (fst (snd s) ! j \<or> j \<in> set vs) \<longrightarrow> fst (snd (foldl (cc_visit n es) s vs)) ! j)"
  using assms
proof (induction vs arbitrary: s)
  case Nil
  then show ?case by simp
next
  case (Cons v vs)
  have v: "v < n" using Cons.prems by simp
  note step = cc_visit_inv [OF Cons.prems(1) v, where es = es]
  have "cc_inv n (foldl (cc_visit n es) (cc_visit n es s v) vs)
         \<and> (\<forall>j<n. (fst (snd (cc_visit n es s v)) ! j \<or> j \<in> set vs)
               \<longrightarrow> fst (snd (foldl (cc_visit n es) (cc_visit n es s v) vs)) ! j)"
    using Cons.prems by (intro Cons.IH step) auto
  then show ?case using step(2,3) by auto
qed

lemma connected_components_labels:
  assumes "connected_components n es = (num_comp, c)"
  shows "length c = n" and "\<And>j. j < n \<Longrightarrow> c ! j < num_comp"
proof -
  let ?s0 = "(0::nat, replicate n False, replicate n (0::nat))"
  obtain seen where f: "foldl (cc_visit n es) ?s0 [0..<n] = (num_comp, seen, c)"
    using assms by (auto simp: connected_components_def split: prod.splits)
  have i0: "cc_inv n ?s0" by (simp add: cc_inv_def)
  have sub: "set [0..<n] \<subseteq> {..<n}" by auto
  have "cc_inv n (num_comp, seen, c) \<and> (\<forall>j<n. seen ! j)"
    using cc_fold_inv [OF i0 sub, where es = es] unfolding f by auto
  then show "length c = n" and "\<And>j. j < n \<Longrightarrow> c ! j < num_comp"
    by (auto simp: cc_inv_def)
qed

lemma collect_fold:
  assumes "\<And>j. j \<in> set js \<Longrightarrow> c ! j < length comps"
  shows "length (foldl (\<lambda>comps j. comps[c ! j := comps ! (c ! j) @ [f j]]) comps js) = length comps
    \<and> (\<forall>k<length comps.
         foldl (\<lambda>comps j. comps[c ! j := comps ! (c ! j) @ [f j]]) comps js ! k
           = comps ! k @ map f (filter (\<lambda>j. c ! j = k) js))"
  using assms
proof (induction js arbitrary: comps)
  case Nil
  then show ?case by simp
next
  case (Cons j js)
  let ?comps = "comps[c ! j := comps ! (c ! j) @ [f j]]"
  have "length (foldl (\<lambda>comps j. comps[c ! j := comps ! (c ! j) @ [f j]]) ?comps js) = length ?comps
    \<and> (\<forall>k<length ?comps.
         foldl (\<lambda>comps j. comps[c ! j := comps ! (c ! j) @ [f j]]) ?comps js ! k
           = ?comps ! k @ map f (filter (\<lambda>j. c ! j = k) js))"
    using Cons.prems by (intro Cons.IH) auto
  then show ?case using Cons.prems [of j] by (auto simp: nth_list_update)
qed

lemma collect_components_nth:
  assumes "\<And>j. j < nv \<Longrightarrow> c ! j < num_comp"
  shows "length (collect_components rm nv num_comp c) = num_comp"
    and "\<And>k. k < num_comp \<Longrightarrow> collect_components rm nv num_comp c ! k
           = map (\<lambda>j. case rm j of Some p \<Rightarrow> p | None \<Rightarrow> default_point)
               (filter (\<lambda>j. c ! j = k) [0..<nv])"
  using collect_fold [of "[0..<nv]" c "replicate num_comp []"
      "\<lambda>j. case rm j of Some p \<Rightarrow> p | None \<Rightarrow> default_point"] assms
  by (auto simp: collect_components_def)

lemma findLegallyConnectedComponents_shape:
  "\<exists>comps c. findLegallyConnectedComponents img = Inr comps
     \<and> (\<forall>k<length comps. comps ! k =
            map (\<lambda>j. point_of (positive_pixels img ! j))
              (filter (\<lambda>j. c ! j = k) [0..<length (positive_pixels img)]))
     \<and> (\<forall>j<length (positive_pixels img). c ! j < length comps)"
proof -
  obtain m rm nv where nvs: "number_vertices img = (m, rm, nv)"
    by (cases "number_vertices img")
  note facts = number_vertices_facts [OF nvs]
  have "built (build_graph img m)"
  proof (rule build_graph_built)
    fix r c assume "(r, c) \<in> set (scan img)" "img_elem img r c > 0"
    then have "(r, c) \<in> set (positive_pixels img)"
      by (simp add: positive_pixels_def)
    then show "r * img_width img + c \<in> dom m"
      unfolding facts(3) by force
  qed
  then obtain g where g: "build_graph img m = Inr g"
    by (auto simp: built_def)
  obtain num_comp c where cc: "connected_components nv g = (num_comp, c)"
    by (cases "connected_components nv g")
  note lab = connected_components_labels [OF cc]
  let ?comps = "collect_components rm nv num_comp c"
  note col = collect_components_nth [where rm = rm, OF lab(2)]
  have res: "findLegallyConnectedComponents img = Inr ?comps"
    by (simp add: findLegallyConnectedComponents_def nvs g cc)
  have nth: "?comps ! k = map (\<lambda>j. point_of (positive_pixels img ! j))
              (filter (\<lambda>j. c ! j = k) [0..<length (positive_pixels img)])"
    if "k < length ?comps" for k
  proof -
    have "?comps ! k = map (\<lambda>j. case rm j of Some p \<Rightarrow> p | None \<Rightarrow> default_point)
               (filter (\<lambda>j. c ! j = k) [0..<nv])"
      using that col by simp
    also have "\<dots> = map (\<lambda>j. point_of (positive_pixels img ! j)) (filter (\<lambda>j. c ! j = k) [0..<nv])"
      by (rule map_cong) (auto simp: facts(2))
    finally show ?thesis by (simp add: facts(1))
  qed
  have "\<forall>j<length (positive_pixels img). c ! j < length ?comps"
    using lab(2) col(1) facts(1) by simp
  then show ?thesis using res nth by blast
qed

text \<open>
  C10. For every stroke-width map the extraction returns (it raises no exception), and the
  returned components partition the pixels with a value above 0: every such pixel lies in
  exactly one component, no component lists a pixel twice, and every pixel of a component
  is a pixel of the image with a value above 0.
\<close>

theorem C10_components_partition:
  "\<exists>comps. findLegallyConnectedComponents img = Inr comps
     \<and> (\<forall>rc \<in> set (scan img). img_elem img (fst rc) (snd rc) > 0 \<longrightarrow>
           (\<exists>!k. k < length comps \<and> point_of rc \<in> set (comps ! k)))
     \<and> (\<forall>k<length comps. distinct (comps ! k)
           \<and> (\<forall>p \<in> set (comps ! k). (py p, px p) \<in> set (scan img)
                  \<and> img_elem img (py p) (px p) > 0))"
proof -
  let ?pos = "positive_pixels img"
  from findLegallyConnectedComponents_shape [of img]
  obtain comps c where res: "findLegallyConnectedComponents img = Inr comps"
    and nth': "\<forall>k<length comps. comps ! k =
            map (\<lambda>j. point_of (?pos ! j)) (filter (\<lambda>j. c ! j = k) [0..<length ?pos])"
    and lab': "\<forall>j<length ?pos. c ! j < length comps"
    by (elim exE conjE)
  have nth: "comps ! k =
            map (\<lambda>j. point_of (?pos ! j)) (filter (\<lambda>j. c ! j = k) [0..<length ?pos])"
    if "k < length comps" for k
    using nth' [rule_format, OF that] .
  have lab: "c ! j < length comps" if "j < length ?pos" for j
    using lab' [rule_format, OF that] .
  have dist: "distinct ?pos" by (rule distinct_positive_pixels)
  have mem: "p \<in> set (comps ! k) \<longleftrightarrow> (\<exists>j<length ?pos. c ! j = k \<and> p = point_of (?pos ! j))"
    if "k < length comps" for k p
    unfolding nth [OF that] by auto
  have a: "\<exists>!k. k < length comps \<and> point_of rc \<in> set (comps ! k)"
    if "rc \<in> set (scan img)" "img_elem img (fst rc) (snd rc) > 0" for rc
  proof -
    have "rc \<in> set ?pos" using that by (simp add: positive_pixels_def)
    then obtain j where j: "j < length ?pos" "?pos ! j = rc"
      by (auto simp: in_set_conv_nth)
    show ?thesis
    proof (rule ex1I [of _ "c ! j"])
      show "c ! j < length comps \<and> point_of rc \<in> set (comps ! (c ! j))"
        using lab [OF j(1)] mem [of "c ! j" "point_of rc"] j by auto
    next
      fix k assume k: "k < length comps \<and> point_of rc \<in> set (comps ! k)"
      then obtain j' where j': "j' < length ?pos" "c ! j' = k" "point_of rc = point_of (?pos ! j')"
        using mem [of k "point_of rc"] by auto
      then have "?pos ! j' = ?pos ! j"
        using j(2) by (simp add: point_of_eq_iff)
      then have "j' = j"
        using dist j(1) j'(1) by (simp add: nth_eq_iff_index_eq)
      then show "k = c ! j" using j'(2) by simp
    qed
  qed
  have b: "distinct (comps ! k) \<and> (\<forall>p \<in> set (comps ! k). (py p, px p) \<in> set (scan img)
                  \<and> img_elem img (py p) (px p) > 0)"
    if k: "k < length comps" for k
  proof
    have "inj_on (\<lambda>j. point_of (?pos ! j)) {..<length ?pos}"
      using dist by (auto simp: inj_on_def nth_eq_iff_index_eq point_of_eq_iff)
    then have "inj_on (\<lambda>j. point_of (?pos ! j)) (set (filter (\<lambda>j. c ! j = k) [0..<length ?pos]))"
      by (rule inj_on_subset) auto
    then show "distinct (comps ! k)"
      unfolding nth [OF k] by (simp add: distinct_map)
    show "\<forall>p \<in> set (comps ! k). (py p, px p) \<in> set (scan img) \<and> img_elem img (py p) (px p) > 0"
    proof
      fix p assume "p \<in> set (comps ! k)"
      then obtain j where j: "j < length ?pos" "p = point_of (?pos ! j)"
        using mem [OF k] by auto
      have "?pos ! j \<in> set ?pos" using j(1) by simp
      then show "(py p, px p) \<in> set (scan img) \<and> img_elem img (py p) (px p) > 0"
        by (simp add: j(2) point_of_def positive_pixels_def)
    qed
  qed
  show ?thesis
  proof (intro exI [of _ comps] conjI ballI impI allI)
    show "findLegallyConnectedComponents img = Inr comps" by (rule res)
  next
    fix rc assume "rc \<in> set (scan img)" "img_elem img (fst rc) (snd rc) > 0"
    then show "\<exists>!k. k < length comps \<and> point_of rc \<in> set (comps ! k)" by (rule a)
  next
    fix k assume "k < length comps"
    then show "distinct (comps ! k)" using b by simp
  next
    fix k p assume "k < length comps" "p \<in> set (comps ! k)"
    then show "(py p, px p) \<in> set (scan img)" using b by simp
  next
    fix k p assume "k < length comps" "p \<in> set (comps ! k)"
    then show "img_elem img (py p) (px p) > 0" using b by simp
  qed
qed

lemmas graph_eval = findLegallyConnectedComponents_def number_vertices_def scan_def number_step_def
  build_graph_def pixel_edges_def legally_connected_def add_edge_at_def connected_components_def
  cc_visit_def reachable_def grow_def adjacent_def collect_components_def upto.simps

lemma ex_img_components:
  "findLegallyConnectedComponents ex_img
     = Inr [[\<lparr>px = 0, py = 0, SWT = 0\<rparr>, \<lparr>px = 0, py = 1, SWT = 0\<rparr>],
            [\<lparr>px = 2, py = 0, SWT = 0\<rparr>, \<lparr>px = 2, py = 1, SWT = 0\<rparr>]]"
  by (simp add: graph_eval ex_img_def eval_nat_numeral)

theorem C10_components_partition_witness:
  "findLegallyConnectedComponents ex_img
     = Inr [[\<lparr>px = 0, py = 0, SWT = 0\<rparr>, \<lparr>px = 0, py = 1, SWT = 0\<rparr>],
            [\<lparr>px = 2, py = 0, SWT = 0\<rparr>, \<lparr>px = 2, py = 1, SWT = 0\<rparr>]]
   \<and> (1, 2) \<in> set (scan ex_img) \<and> img_elem ex_img 1 2 = 5
   \<and> (\<exists>!k. k < 2 \<and> point_of (1, 2)
         \<in> set ([[\<lparr>px = 0, py = 0, SWT = 0\<rparr>, \<lparr>px = 0, py = 1, SWT = 0\<rparr>],
            [\<lparr>px = 2, py = 0, SWT = 0\<rparr>, \<lparr>px = 2, py = 1, SWT = 0\<rparr>]] ! k))"
proof -
  let ?cs = "[[\<lparr>px = 0, py = 0, SWT = 0\<rparr>, \<lparr>px = 0, py = 1, SWT = 0\<rparr>],
            [\<lparr>px = 2, py = 0, SWT = 0\<rparr>, \<lparr>px = 2, py = 1, SWT = 0::real\<rparr>]]"
  have sc: "(1, 2) \<in> set (scan ex_img)"
    by (simp add: set_scan ex_img_def)
  have el: "img_elem ex_img 1 2 = 5"
    by (simp add: ex_img_def)
  from C10_components_partition [of ex_img]
  obtain comps where res: "findLegallyConnectedComponents ex_img = Inr comps"
    and a: "\<forall>rc \<in> set (scan ex_img). img_elem ex_img (fst rc) (snd rc) > 0 \<longrightarrow>
           (\<exists>!k. k < length comps \<and> point_of rc \<in> set (comps ! k))"
    by (elim exE conjE)
  have comps: "comps = ?cs"
    using res ex_img_components by simp
  have "\<exists>!k. k < length comps \<and> point_of (1, 2) \<in> set (comps ! k)"
    using a [rule_format, OF sc] el by simp
  then have "\<exists>!k. k < 2 \<and> point_of (1, 2) \<in> set (?cs ! k)"
    unfolding comps by (simp add: numeral_2_eq_2)
  then show ?thesis using ex_img_components sc el by simp
qed

subsection \<open>Edges of the component graph\<close>

text \<open>
  For a pixel with a value above 0 the edge test holds for every neighbour with a value
  above 0: of the two quotients one is at most 1, so the disjunction never fails.
\<close>

lemma legally_connected_positive:
  assumes "0 < a"
  shows "legally_connected a b \<longleftrightarrow> 0 < b"
proof (cases "0 < b")
  case True
  have "a / b \<le> 1 \<or> b / a \<le> 1"
    using assms True by (cases "a \<le> b") simp_all
  then have "a / b \<le> 3 \<or> b / a \<le> 3"
    by auto
  then show ?thesis using True by (simp add: legally_connected_def)
next
  case False
  then show ?thesis by (simp add: legally_connected_def)
qed

text \<open>
  C1. On the one-row map with the values 1 and 4 the graph gets the edge between the two
  pixels, although their stroke-width ratio is 4 (above 3.0), and the extraction returns
  both pixels as one component. The claimed bound \<open>max(a/b, b/a) \<le> 3.0\<close> on the edges of
  the graph does not hold for the code.
\<close>

theorem C1_edge_despite_ratio:
  "build_graph ex_row (fst (number_vertices ex_row)) = Inr [(0, 1)]
   \<and> img_elem ex_row 0 0 = 1 \<and> img_elem ex_row 0 1 = 4
   \<and> max (img_elem ex_row 0 0 / img_elem ex_row 0 1) (img_elem ex_row 0 1 / img_elem ex_row 0 0) = 4
   \<and> findLegallyConnectedComponents ex_row
       = Inr [[\<lparr>px = 0, py = 0, SWT = 0\<rparr>, \<lparr>px = 1, py = 0, SWT = 0\<rparr>]]"
  by (simp add: graph_eval ex_row_def numeral_2_eq_2)

subsection \<open>Rotated bounding box search\<close>















text \<open>
  The running maximum of the rotated x coordinates starts at 0, although a rotated x
  coordinate can be negative: for the single pixel \<open>(0, 10)\<close> the candidate length is
  \<open>10 sin \<theta> + 1\<close> instead of 1.
\<close>

lemma candidate_single_pixel:
  assumes "0 < sin theta" "0 \<le> cos theta"
  shows "candidate [\<lparr>px = 0, py = 10, SWT = 0\<rparr>] theta
           = ((10 * sin theta + 1) * 1, 10 * sin theta + 1, 1)"
proof -
  have "cos theta \<le> 1" by simp
  then have "10 * cos theta \<le> 1000000" by linarith
  then show ?thesis
    using assms by (auto simp: candidate_def rotated_extents_def rot_x_def rot_y_def min_def max_def Let_def)
qed

subsection \<open>Containment filter\<close>

lemma foldl_count: "foldl (\<lambda>count j. if P j then count + 1 else count) (a::nat) js = a + length (filter P js)"
  by (induction js arbitrary: a) auto

lemma count_contained_eq:
  "count_contained d i = length (others_inside (compBB d) (compCenters d) (length (validComponents d)) i)"
proof -
  have "count_contained d i =
     foldl (\<lambda>count j. if (j \<noteq> i \<and> inside_bb (compBB d ! i) (compCenters d ! j)) then count + 1 else count)
       0 [0..<length (validComponents d)]"
    unfolding count_contained_def by (rule arg_cong [where f = "\<lambda>f. foldl f 0 _"]) (auto simp: fun_eq_iff)
  then show ?thesis by (simp add: foldl_count others_inside_def)
qed

lemma push_select:
  "push_component d i (select_components d ks) = select_components d (ks @ [i])"
  by (simp add: push_component_def select_components_def)

lemma foldl_push:
  "foldl (\<lambda>t i. if P i then push_component d i t else t) (select_components d ks) js
     = select_components d (ks @ filter P js)"
proof (induction js arbitrary: ks)
  case Nil
  then show ?case by simp
next
  case (Cons j js)
  show ?case
  proof (cases "P j")
    case True
    then show ?thesis using Cons [of "ks @ [j]"] by (simp add: push_select)
  next
    case False
    then show ?thesis using Cons [of ks] by simp
  qed
qed

lemma containment_pass_select: "containment_pass d = select_components d (kept_indices d)"
proof -
  have e: "no_components = select_components d []"
    by (simp add: no_components_def select_components_def)
  show ?thesis
    unfolding containment_pass_def kept_indices_def count_contained_eq [symmetric] e
    using foldl_push [of "\<lambda>i. count_contained d i < 2" d "[]"] by simp
qed

lemma length_filter_mono:
  "(\<And>x. x \<in> set xs \<Longrightarrow> P x \<Longrightarrow> Q x) \<Longrightarrow> length (filter P xs) \<le> length (filter Q xs)"
  by (induction xs) auto

lemma others_inside_sub:
  assumes "distinct ks" and "set ks \<subseteq> {0..<n}" and "k < length ks"
  shows "length (others_inside (map ((!) bbs) ks) (map ((!) ctrs) ks) (length ks) k)
           \<le> length (others_inside bbs ctrs n (ks ! k))"
proof -
  let ?Q = "\<lambda>j. j \<noteq> ks ! k \<and> inside_bb (bbs ! (ks ! k)) (ctrs ! j)"
  have "filter (\<lambda>l. l \<noteq> k \<and> inside_bb (map ((!) bbs) ks ! k) (map ((!) ctrs) ks ! l)) [0..<length ks]
          = filter (\<lambda>l. ?Q (ks ! l)) [0..<length ks]"
    using assms(1,3) by (intro filter_cong) (auto simp: nth_eq_iff_index_eq)
  then have "length (others_inside (map ((!) bbs) ks) (map ((!) ctrs) ks) (length ks) k)
          = length (filter (?Q \<circ> (!) ks) [0..<length ks])"
    by (simp add: others_inside_def comp_def)
  also have "\<dots> = length (filter ?Q (map ((!) ks) [0..<length ks]))"
    by (simp add: filter_map)
  also have "\<dots> = length (filter ?Q ks)"
    by (simp add: map_nth)
  also have "\<dots> = card (set (filter ?Q ks))"
    using assms(1) distinct_card [of "filter ?Q ks"] by simp
  also have "\<dots> \<le> card (set (filter ?Q [0..<n]))"
    using assms(2) by (intro card_mono) auto
  also have "\<dots> = length (filter ?Q [0..<n])"
    using distinct_card [of "filter ?Q [0..<n]"] by simp
  finally show ?thesis by (simp add: others_inside_def)
qed

text \<open>
  C8. The containment filter is one pass over the fixed first-pass survivors: its result is
  the survivors at the kept indices, index \<open>i\<close> is kept exactly when fewer than 2 other
  survivors have their centre inside the box of \<open>i\<close> (discarded exactly when 2 or more
  have), and in the retained vectors no box contains the centres of 2 or more other
  retained components.
\<close>

theorem C8_containment_filter:
  fixes d :: CompData
  defines "n \<equiv> length (validComponents d)"
  defines "r \<equiv> containment_pass d"
  shows "r = select_components d (kept_indices d)
    \<and> (\<forall>i<n. i \<in> set (kept_indices d) \<longleftrightarrow>
           length (others_inside (compBB d) (compCenters d) n i) < 2)
    \<and> (\<forall>k<length (validComponents r).
           length (others_inside (compBB r) (compCenters r) (length (validComponents r)) k) < 2)"
proof (intro conjI allI impI)
  show sel: "r = select_components d (kept_indices d)"
    unfolding r_def by (rule containment_pass_select)
  show "i \<in> set (kept_indices d) \<longleftrightarrow> length (others_inside (compBB d) (compCenters d) n i) < 2"
    if "i < n" for i
    using that by (simp add: kept_indices_def n_def)
  show "length (others_inside (compBB r) (compCenters r) (length (validComponents r)) k) < 2"
    if "k < length (validComponents r)" for k
  proof -
    let ?ks = "kept_indices d"
    have k: "k < length ?ks" using that by (simp add: sel select_components_def)
    have dist: "distinct ?ks" and sub: "set ?ks \<subseteq> {0..<n}"
      by (auto simp: kept_indices_def n_def)
    have "ks ! k \<in> set ?ks" if "ks = ?ks" for ks using k that by simp
    then have "length (others_inside (compBB d) (compCenters d) n (?ks ! k)) < 2"
      by (simp add: kept_indices_def n_def)
    moreover have "length (others_inside (compBB r) (compCenters r) (length (validComponents r)) k)
       \<le> length (others_inside (compBB d) (compCenters d) n (?ks ! k))"
      using others_inside_sub [OF dist sub k] by (simp add: sel select_components_def)
    ultimately show ?thesis by simp
  qed
qed


theorem C8_containment_filter_witness:
  "kept_indices ex_survivors = [1, 2, 3]
   \<and> length (others_inside (compBB ex_survivors) (compCenters ex_survivors) 4 0) = 2
   \<and> compMedians (containment_pass ex_survivors) = [5, 6, 7]
   \<and> length (others_inside (compBB (containment_pass ex_survivors))
         (compCenters (containment_pass ex_survivors)) 3 0) < 2"
proof -
  have up: "[0..<4] = [0, 1, 2, 3]"
    by (simp add: upt_rec)
  have k: "kept_indices ex_survivors = [1, 2, 3]"
    by (simp add: kept_indices_def others_inside_def ex_survivors_def inside_bb_def up)
  have c: "length (others_inside (compBB ex_survivors) (compCenters ex_survivors) 4 0) = 2"
    by (simp add: others_inside_def ex_survivors_def inside_bb_def up)
  have s: "containment_pass ex_survivors = select_components ex_survivors [1, 2, 3]"
    using C8_containment_filter [of ex_survivors] k by simp
  have l: "length (validComponents (containment_pass ex_survivors)) = 3"
    by (simp add: s select_components_def)
  have "\<forall>k<length (validComponents (containment_pass ex_survivors)).
          length (others_inside (compBB (containment_pass ex_survivors))
            (compCenters (containment_pass ex_survivors))
            (length (validComponents (containment_pass ex_survivors))) k) < 2"
    using C8_containment_filter [of ex_survivors] by (rule conjunct2 [THEN conjunct2])
  then have "length (others_inside (compBB (containment_pass ex_survivors))
         (compCenters (containment_pass ex_survivors)) 3 0) < 2"
    unfolding l by simp
  moreover have "compMedians (containment_pass ex_survivors) = [5, 6, 7]"
    unfolding s by (simp add: select_components_def ex_survivors_def)
  ultimately show ?thesis using k c by simp
qed

subsection \<open>Chain merging\<close>

lemma length_filter_update:
  "k < length xs \<Longrightarrow>
     length (filter P (xs[k := y])) + (if P (xs ! k) then 1 else 0)
       = length (filter P xs) + (if P y then 1 else 0)"
proof (induction xs arbitrary: k)
  case Nil
  then show ?case by simp
next
  case (Cons x xs)
  show ?case
  proof (cases k)
    case 0
    then show ?thesis by simp
  next
    case (Suc k')
    then show ?thesis using Cons.IH [of k'] Cons.prems by simp
  qed
qed

lemma merge_into_merged [simp]: "merged (merge_into fm d ci cj p q) = merged ci"
  by (simp add: merge_into_def)

lemma try_merge_merged: "try_merge fm d ci cj = Some c \<Longrightarrow> merged c = merged ci"
  by (auto simp: try_merge_def split: if_splits)

lemma merge_step_inv:
  assumes "pass_inv n s" and "i < n" and "j < n"
  shows "pass_inv n (merge_step fm d i s j)"
proof -
  obtain chs m where s: "s = (chs, m)" by (cases s)
  have len: "length chs = n" and m: "m = length (filter merged chs)"
    using assms(1) by (simp_all add: pass_inv_def s)
  show ?thesis
  proof (cases "i \<noteq> j \<and> \<not> merged (chs ! i) \<and> \<not> merged (chs ! j) \<and> sharesOneEnd (chs ! i) (chs ! j)")
    case False
    then show ?thesis using assms(1) by (auto simp: merge_step_def s)
  next
    case True
    show ?thesis
    proof (cases "try_merge fm d (chs ! i) (chs ! j)")
      case None
      then show ?thesis using assms(1) True by (simp add: merge_step_def s)
    next
      case (Some c)
      have c: "\<not> merged c" using try_merge_merged [OF Some] True by simp
      let ?chs1 = "chs[i := c]"
      have 1: "length (filter merged ?chs1) = length (filter merged chs)"
        using length_filter_update [of i chs merged c] assms(2) len True c by simp
      have "?chs1 ! j = chs ! j" using True by simp
      then have 2: "length (filter merged (?chs1[j := (chs ! j)\<lparr>merged := True\<rparr>]))
                  = length (filter merged ?chs1) + 1"
        using length_filter_update [of j ?chs1 merged "(chs ! j)\<lparr>merged := True\<rparr>"] assms(3) len True
        by simp
      have "merge_step fm d i s j = (?chs1[j := (chs ! j)\<lparr>merged := True\<rparr>], m + 1)"
        using True Some by (simp add: merge_step_def s)
      then show ?thesis using 1 2 m len by (simp add: pass_inv_def)
    qed
  qed
qed

lemma merge_inner_inv:
  assumes "pass_inv n s" and "i < n" and "set js \<subseteq> {..<n}"
  shows "pass_inv n (foldl (merge_step fm d i) s js)"
  using assms(1,3)
proof (induction js arbitrary: s)
  case Nil
  then show ?case by simp
next
  case (Cons j js)
  then show ?case using merge_step_inv [of n s i j fm d] assms(2) by simp
qed

lemma merge_outer_inv:
  assumes "pass_inv n s" and "set is \<subseteq> {..<n}"
  shows "pass_inv n (foldl (\<lambda>s i. foldl (merge_step fm d i) s [0..<n]) s is)"
  using assms
proof (induction "is" arbitrary: s)
  case Nil
  then show ?case by simp
next
  case (Cons i "is")
  have "pass_inv n (foldl (merge_step fm d i) s [0..<n])"
    using Cons.prems by (intro merge_inner_inv) auto
  then show ?case using Cons by simp
qed

lemma merge_pass_count:
  "length (fst (merge_pass fm d chs)) + snd (merge_pass fm d chs) = length chs"
proof -
  let ?chs = "map (\<lambda>c. c\<lparr>merged := False\<rparr>) chs"
  let ?n = "length ?chs"
  obtain chs1 m where f: "foldl (\<lambda>s i. foldl (merge_step fm d i) s [0..<?n]) (?chs, 0) [0..<?n] = (chs1, m)"
    by (cases "foldl (\<lambda>s i. foldl (merge_step fm d i) s [0..<?n]) (?chs, 0) [0..<?n]")
  have "filter merged ?chs = []"
    by (induction chs) auto
  then have i0: "pass_inv ?n (?chs, 0)"
    by (simp add: pass_inv_def)
  have sub: "set [0..<?n] \<subseteq> {..<?n}" by auto
  have "pass_inv ?n (chs1, m)"
    using merge_outer_inv [OF i0 sub, of fm d] unfolding f .
  then have len: "length chs1 = length chs" and m: "m = length (filter merged chs1)"
    by (simp_all add: pass_inv_def)
  have "length (filter (\<lambda>c. \<not> merged c) chs1) + length (filter merged chs1) = length chs1"
    using sum_length_filter_compl [of merged chs1] by simp
  moreover have "merge_pass fm d chs
      = (sort_key (\<lambda>c. - int (length (components c))) (filter (\<lambda>c. \<not> merged c) chs1), m)"
    using f by (simp add: merge_pass_def Let_def)
  ultimately show ?thesis using len m by simp
qed

lemma merge_loop_terminates: "\<exists>r. merge_loop fm d chs = Some r"
proof (induction chs rule: length_induct)
  case (1 chs)
  obtain chs' m where p: "merge_pass fm d chs = (chs', m)"
    by (cases "merge_pass fm d chs")
  show ?case
  proof (cases "m > 0")
    case True
    have "length chs' + m = length chs"
      using merge_pass_count [of fm d chs] by (simp add: p)
    then have "length chs' < length chs" using True by simp
    then obtain r where "merge_loop fm d chs' = Some r" using 1 by blast
    then show ?thesis using True p by (subst merge_loop.simps) simp
  next
    case False
    then show ?thesis using p by (subst merge_loop.simps) simp
  qed
qed

text \<open>
  C9. The merge loop returns for every list of chains, in either rounding mode. A pass removes exactly as many
  chains as it performs merges, so a pass with at least one merge returns strictly fewer
  chains than it got, and after finitely many passes a pass merges nothing.
\<close>

theorem C9_merge_loop_terminates:
  "(\<exists>r. merge_loop fm d chs = Some r)
   \<and> length (fst (merge_pass fm d chs)) + snd (merge_pass fm d chs) = length chs
   \<and> (snd (merge_pass fm d chs) > 0 \<longrightarrow> length (fst (merge_pass fm d chs)) < length chs)"
  using merge_loop_terminates [of fm d chs] merge_pass_count [of fm d chs] by auto

lemma pair_mset_nth:
  assumes "i < length xs" "j < length xs" "i < j"
  shows "{#xs ! i, xs ! j#} \<subseteq># mset xs"
proof -
  have xs: "xs = take j xs @ xs ! j # drop (Suc j) xs"
    using assms(2) by (rule id_take_nth_drop)
  have "take j xs ! i \<in> set (take j xs)" using assms by (intro nth_mem) simp
  then have "xs ! i \<in> set (take j xs)" using assms by simp
  then have "{#xs ! i#} \<subseteq># mset (take j xs)" by simp
  then have "{#xs ! i, xs ! j#} \<subseteq># mset (take j xs) + {#xs ! j#}"
    by (simp add: insert_subset_eq_iff)
  also have "\<dots> \<subseteq># mset (take j xs) + {#xs ! j#} + mset (drop (Suc j) xs)"
    by simp
  also have "\<dots> = mset (take j xs @ xs ! j # drop (Suc j) xs)" by simp
  finally show ?thesis using xs by simp
qed

lemma pair_mset_nth':
  assumes "i < length xs" "j < length xs" "i \<noteq> j"
  shows "{#xs ! i, xs ! j#} \<subseteq># mset xs"
proof (cases "i < j")
  case True
  then show ?thesis using assms by (intro pair_mset_nth)
next
  case False
  then have "j < i" using assms(3) by simp
  then have "{#xs ! j, xs ! i#} \<subseteq># mset xs" using assms by (intro pair_mset_nth)
  then show ?thesis by (simp add: add_mset_commute)
qed

lemma pair_mset_positions:
  assumes "{#a, b#} \<subseteq># mset xs"
  shows "\<exists>i j. i < length xs \<and> j < length xs \<and> i \<noteq> j \<and> xs ! i = a \<and> xs ! j = b"
proof -
  have "a \<in># {#a, b#}" by simp
  then have "a \<in># mset xs" using assms by (rule mset_subset_eqD [rotated])
  then obtain ys zs where xs: "xs = ys @ a # zs"
    by (auto dest: split_list)
  have "add_mset a {#b#} \<subseteq># add_mset a (mset (ys @ zs))"
    using assms by (simp add: xs)
  then have "b \<in> set (ys @ zs)" by simp
  then consider "b \<in> set ys" | "b \<in> set zs" by auto
  then show ?thesis
  proof cases
    case 1
    then obtain k where k: "k < length ys" "ys ! k = b" by (auto simp: in_set_conv_nth)
    have "xs ! k = b" "xs ! length ys = a" using k by (simp_all add: xs nth_append)
    then show ?thesis using k(1) by (intro exI [of _ "length ys"] exI [of _ k]) (auto simp: xs)
  next
    case 2
    then obtain k where k: "k < length zs" "zs ! k = b" by (auto simp: in_set_conv_nth)
    have "xs ! (length ys + Suc k) = b" "xs ! length ys = a" using k by (simp_all add: xs nth_append)
    then show ?thesis using k(1)
      by (intro exI [of _ "length ys"] exI [of _ "length ys + Suc k"]) (auto simp: xs)
  qed
qed

lemma pairwise_nth_mono:
  assumes sub: "mset ys \<subseteq># mset xs"
    and R: "\<And>i j. i < length xs \<Longrightarrow> j < length xs \<Longrightarrow> i \<noteq> j \<Longrightarrow> R (xs ! i) (xs ! j)"
    and ij: "i < length ys" "j < length ys" "i \<noteq> j"
  shows "R (ys ! i) (ys ! j)"
proof -
  have "{#ys ! i, ys ! j#} \<subseteq># mset ys" using ij by (rule pair_mset_nth')
  then have "{#ys ! i, ys ! j#} \<subseteq># mset xs" using sub by (rule subset_mset.order_trans)
  from pair_mset_positions [OF this]
  obtain i' j' where "i' < length xs" "j' < length xs" "i' \<noteq> j'"
    "xs ! i' = ys ! i" "xs ! j' = ys ! j"
    by (elim exE conjE)
  then show ?thesis using R [of i' j'] by simp
qed

lemma merge_folds_inv:
  assumes step: "\<And>s i j. Q s \<Longrightarrow> i < n \<Longrightarrow> j < n \<Longrightarrow> Q (merge_step fm d i s j)"
    and "Q s"
  shows "Q (foldl (\<lambda>s i. foldl (merge_step fm d i) s [0..<n]) s [0..<n])"
proof -
  have inner: "Q (foldl (merge_step fm d i) s js)" if "Q s" "i < n" "set js \<subseteq> {..<n}" for s i js
    using that(1,3)
  proof (induction js arbitrary: s)
    case Nil
    then show ?case by simp
  next
    case (Cons j js)
    then show ?case using step [of s i j] that(2) by simp
  qed
  have outer: "Q (foldl (\<lambda>s i. foldl (merge_step fm d i) s [0..<n]) s is)"
    if "Q s" "set is \<subseteq> {..<n}" for s "is"
    using that
  proof (induction "is" arbitrary: s)
    case Nil
    then show ?case by simp
  next
    case (Cons i "is")
    have "Q (foldl (merge_step fm d i) s [0..<n])"
      using Cons.prems by (intro inner) auto
    then show ?case using Cons by simp
  qed
  show ?thesis using assms(2) by (intro outer) auto
qed

lemma merge_loop_result:
  assumes pass: "\<And>chs. P chs \<Longrightarrow> P (fst (merge_pass fm d chs))" and "P chs"
  shows "\<exists>chs'. P chs' \<and> snd (merge_pass fm d chs') = 0
           \<and> merge_loop fm d chs = Some (fst (merge_pass fm d chs'))"
  using assms(2)
proof (induction chs rule: length_induct)
  case (1 chs)
  obtain chs1 m where p: "merge_pass fm d chs = (chs1, m)"
    by (cases "merge_pass fm d chs")
  show ?case
  proof (cases "m > 0")
    case True
    have "length chs1 + m = length chs"
      using merge_pass_count [of fm d chs] by (simp add: p)
    then have "length chs1 < length chs" using True by simp
    moreover have "P chs1" using pass [OF "1.prems"] by (simp add: p)
    ultimately obtain chs' where "P chs'" "snd (merge_pass fm d chs') = 0"
      "merge_loop fm d chs1 = Some (fst (merge_pass fm d chs'))"
      using "1.IH" by blast
    moreover have "merge_loop fm d chs = merge_loop fm d chs1"
      using True p by (subst merge_loop.simps) simp
    ultimately show ?thesis by auto
  next
    case False
    then have "merge_loop fm d chs = Some (fst (merge_pass fm d chs))"
      using p by (subst merge_loop.simps) simp
    then show ?thesis using False p "1.prems" by (intro exI [of _ chs]) simp
  qed
qed

lemma card_union_ge3:
  assumes "chain_ok a" "chain_ok b" "seeds_differ a b"
  shows "3 \<le> card (set (components a) \<union> set (components b))"
proof -
  let ?A = "set (components a)" and ?B = "set (components b)"
  have A: "card ?A \<le> card (?A \<union> ?B)" and B: "card ?B \<le> card (?A \<union> ?B)"
    by (simp_all add: card_mono)
  show ?thesis
  proof (cases "3 \<le> card ?A \<or> 3 \<le> card ?B")
    case True
    then show ?thesis using A B by auto
  next
    case False
    then have ab: "length (components a) = 2" "card ?A = 2" "length (components b) = 2" "card ?B = 2"
      using assms(1,2) by (auto simp: chain_ok_def)
    then have ne: "?A \<noteq> ?B" using assms(3) by (simp add: seeds_differ_def)
    have "?A \<subset> ?A \<union> ?B"
    proof (rule ccontr)
      assume "\<not> ?A \<subset> ?A \<union> ?B"
      then have "?B \<subseteq> ?A" by auto
      then have "?B = ?A" using ab by (intro card_subset_eq) auto
      then show False using ne by simp
    qed
    then have "card ?A < card (?A \<union> ?B)" by (intro psubset_card_mono) auto
    then show ?thesis using ab by simp
  qed
qed

lemma try_merge_components:
  "try_merge fm d ci cj = Some c \<Longrightarrow> components c = components ci @ components cj"
  by (auto simp: try_merge_def merge_into_def split: if_splits)

lemma chain_ok_long: "3 \<le> card (set (components c)) \<Longrightarrow> chain_ok c \<and> length (components c) \<noteq> 2"
  using card_length [of "components c"] by (auto simp: chain_ok_def)

lemma merge_step_pool:
  assumes inv: "pool_inv (fst s) \<and> length (fst s) = n" and i: "i < n" and j: "j < n"
  shows "pool_inv (fst (merge_step fm d i s j)) \<and> length (fst (merge_step fm d i s j)) = n"
proof -
  obtain chs m where s: "s = (chs, m)" by (cases s)
  have len: "length chs = n" and ok: "\<And>c. c \<in> set chs \<Longrightarrow> chain_ok c"
    and diff: "\<And>k l. k < n \<Longrightarrow> l < n \<Longrightarrow> k \<noteq> l \<Longrightarrow> seeds_differ (chs ! k) (chs ! l)"
    using inv by (auto simp: pool_inv_def s)
  show ?thesis
  proof (cases "i \<noteq> j \<and> \<not> merged (chs ! i) \<and> \<not> merged (chs ! j) \<and> sharesOneEnd (chs ! i) (chs ! j)")
    case False
    then show ?thesis using inv by (auto simp: merge_step_def s)
  next
    case True
    show ?thesis
    proof (cases "try_merge fm d (chs ! i) (chs ! j)")
      case None
      then show ?thesis using inv True by (simp add: merge_step_def s)
    next
      case (Some c)
      let ?cj = "(chs ! j)\<lparr>merged := True\<rparr>"
      let ?chs = "chs[i := c, j := ?cj]"
      have res: "merge_step fm d i s j = (?chs, m + 1)"
        using True Some by (simp add: merge_step_def s)
      have "3 \<le> card (set (components (chs ! i)) \<union> set (components (chs ! j)))"
        using ok [of "chs ! i"] ok [of "chs ! j"] diff [of i j] i j len True
        by (intro card_union_ge3) auto
      then have c3: "3 \<le> card (set (components c))"
        by (simp add: try_merge_components [OF Some])
      note c = chain_ok_long [OF c3]
      have cj: "components ?cj = components (chs ! j)" by simp
      have nth: "components (?chs ! k) = (if k = i then components c else components (chs ! k))"
        if "k < n" for k
        using that len True i j by (auto simp: nth_list_update)
      have "chain_ok x" if "x \<in> set ?chs" for x
      proof -
        from that obtain k where "k < length ?chs" "?chs ! k = x"
          unfolding in_set_conv_nth by blast
        then have k: "k < n" "x = ?chs ! k"
          using len by simp_all
        show ?thesis
        proof (cases "k = i")
          case True
          then show ?thesis using c3 k nth [of k] by (simp add: chain_ok_def)
        next
          case False
          then have "components x = components (chs ! k)" using k nth [of k] by simp
          moreover have "chain_ok (chs ! k)" using ok k len by simp
          ultimately show ?thesis by (simp add: chain_ok_def)
        qed
      qed
      moreover have "seeds_differ (?chs ! k) (?chs ! l)" if "k < n" "l < n" "k \<noteq> l" for k l
      proof (cases "k = i \<or> l = i")
        case True
        then show ?thesis using c nth [of k] nth [of l] that by (auto simp: seeds_differ_def)
      next
        case False
        then show ?thesis using diff [OF that] nth [of k] nth [of l] that
          by (simp add: seeds_differ_def)
      qed
      ultimately show ?thesis using len by (simp add: res pool_inv_def)
    qed
  qed
qed

lemma pool_inv_sub:
  assumes "mset ys \<subseteq># mset xs" and "pool_inv xs"
  shows "pool_inv ys"
proof -
  have "set ys \<subseteq> set xs" using set_mset_mono [OF assms(1)] by simp
  moreover have "seeds_differ (ys ! i) (ys ! j)" if "i < length ys" "j < length ys" "i \<noteq> j" for i j
    using assms(1) _ that
  proof (rule pairwise_nth_mono)
    show "seeds_differ (xs ! k) (xs ! l)" if "k < length xs" "l < length xs" "k \<noteq> l" for k l
      using assms(2) that by (simp add: pool_inv_def)
  qed
  ultimately show ?thesis using assms(2) by (auto simp: pool_inv_def)
qed

lemma pool_inv_reset:
  "pool_inv chs \<Longrightarrow> pool_inv (map (\<lambda>c. c\<lparr>merged := False\<rparr>) chs)"
  by (simp add: pool_inv_def chain_ok_def seeds_differ_def)

lemma merge_pass_unfold:
  assumes "foldl (\<lambda>s i. foldl (merge_step fm d i) s [0..<length chs])
             (map (\<lambda>c. c\<lparr>merged := False\<rparr>) chs, 0) [0..<length chs] = (chs1, m)"
  shows "merge_pass fm d chs
      = (sort_key (\<lambda>c. - int (length (components c))) (filter (\<lambda>c. \<not> merged c) chs1), m)"
  using assms by (simp add: merge_pass_def Let_def)

lemma merge_pass_pool:
  assumes "pool_inv chs"
  shows "pool_inv (fst (merge_pass fm d chs))"
proof -
  let ?chs = "map (\<lambda>c. c\<lparr>merged := False\<rparr>) chs"
  let ?n = "length chs"
  obtain chs1 m where f: "foldl (\<lambda>s i. foldl (merge_step fm d i) s [0..<?n]) (?chs, 0) [0..<?n] = (chs1, m)"
    by (cases "foldl (\<lambda>s i. foldl (merge_step fm d i) s [0..<?n]) (?chs, 0) [0..<?n]")
  have "pool_inv (fst (foldl (\<lambda>s i. foldl (merge_step fm d i) s [0..<?n]) (?chs, 0) [0..<?n]))
      \<and> length (fst (foldl (\<lambda>s i. foldl (merge_step fm d i) s [0..<?n]) (?chs, 0) [0..<?n])) = ?n"
  proof (rule merge_folds_inv [where Q = "\<lambda>s. pool_inv (fst s) \<and> length (fst s) = ?n"])
    fix s :: "Chain list \<times> nat" and i j
    assume "pool_inv (fst s) \<and> length (fst s) = ?n" "i < ?n" "j < ?n"
    then show "pool_inv (fst (merge_step fm d i s j)) \<and> length (fst (merge_step fm d i s j)) = ?n"
      by (rule merge_step_pool)
  next
    show "pool_inv (fst (?chs, 0::nat)) \<and> length (fst (?chs, 0::nat)) = ?n"
      using assms by (simp add: pool_inv_reset)
  qed
  then have 1: "pool_inv chs1" unfolding f by simp
  have "mset (sort_key (\<lambda>c. - int (length (components c))) (filter (\<lambda>c. \<not> merged c) chs1))
          \<subseteq># mset chs1"
    by simp
  then have "pool_inv (sort_key (\<lambda>c. - int (length (components c))) (filter (\<lambda>c. \<not> merged c) chs1))"
    using 1 by (rule pool_inv_sub)
  then show ?thesis
    unfolding merge_pass_unfold [OF f] by simp
qed

lemma seed_pairs_less: "(i, j) \<in> set (seed_pairs n) \<Longrightarrow> i < j \<and> j < n"
  by (auto simp: seed_pairs_def)

lemma distinct_seed_pairs: "distinct (seed_pairs n)"
  unfolding seed_pairs_def
proof (rule distinct_concat)
  have "inj_on (\<lambda>i. map (\<lambda>j. (i, j)) [i + 1..<n]) {0..<n}"
  proof (rule inj_onI)
    fix i i' assume i: "i \<in> {0..<n}" "i' \<in> {0..<n}"
      and eq: "map (\<lambda>j. (i, j)) [i + 1..<n] = map (\<lambda>j. (i', j)) [i' + 1..<n]"
    have "length (map (\<lambda>j. (i, j)) [i + 1..<n]) = length (map (\<lambda>j. (i', j)) [i' + 1..<n])"
      using eq by simp
    then show "i = i'" using i by simp
  qed
  then show "distinct (map (\<lambda>i. map (\<lambda>j. (i, j)) [i + 1..<n]) [0..<n])"
    by (simp add: distinct_map)
next
  fix ys assume "ys \<in> set (map (\<lambda>i. map (\<lambda>j. (i, j)) [i + 1..<n]) [0..<n])"
  then show "distinct ys" by (auto simp: distinct_map inj_on_def)
next
  fix ys zs
  assume "ys \<in> set (map (\<lambda>i. map (\<lambda>j. (i, j)) [i + 1..<n]) [0..<n])"
    "zs \<in> set (map (\<lambda>i. map (\<lambda>j. (i, j)) [i + 1..<n]) [0..<n])" "ys \<noteq> zs"
  then show "set ys \<inter> set zs = {}" by auto
qed

lemma seed_chain_components [simp]: "components (seed_chain fm d (i, j)) = [i, j]"
  by (simp add: seed_chain_def)

lemma pool_inv_seeds: "pool_inv (seed_chains fm d)"
proof -
  let ?ps = "filter (eligible fm d) (seed_pairs (length (validComponents d)))"
  have ps: "fst p < snd p" if "p \<in> set ?ps" for p
    using that seed_pairs_less [of "fst p" "snd p" "length (validComponents d)"] by simp
  have dist: "distinct ?ps" using distinct_seed_pairs by simp
  have len: "length (seed_chains fm d) = length ?ps" by (simp add: seed_chains_def)
  have nth: "seed_chains fm d ! k = seed_chain fm d (?ps ! k)" if "k < length ?ps" for k
    using that by (simp add: seed_chains_def)
  have comps: "components (seed_chains fm d ! k) = [fst (?ps ! k), snd (?ps ! k)]"
    if "k < length ?ps" for k
    using nth [OF that] seed_chain_components [of fm d "fst (?ps ! k)" "snd (?ps ! k)"] by simp
  have ok: "chain_ok c" if "c \<in> set (seed_chains fm d)" for c
  proof -
    from that obtain k where k: "k < length ?ps" "c = seed_chains fm d ! k"
      unfolding in_set_conv_nth len by blast
    have "fst (?ps ! k) < snd (?ps ! k)" using k(1) by (intro ps nth_mem)
    then show ?thesis using comps [OF k(1)] k(2) by (simp add: chain_ok_def)
  qed
  have diff: "seeds_differ (seed_chains fm d ! k) (seed_chains fm d ! l)"
    if "k < length ?ps" "l < length ?ps" "k \<noteq> l" for k l
  proof -
    have 1: "fst (?ps ! k) < snd (?ps ! k)" "fst (?ps ! l) < snd (?ps ! l)"
      using that by (auto intro!: ps nth_mem)
    have "?ps ! k \<noteq> ?ps ! l"
      using dist that by (simp add: nth_eq_iff_index_eq)
    then have "{fst (?ps ! k), snd (?ps ! k)} \<noteq> {fst (?ps ! l), snd (?ps ! l)}"
      using 1 by (auto simp: doubleton_eq_iff prod_eq_iff)
    then show ?thesis using comps that by (simp add: seeds_differ_def)
  qed
  show ?thesis using ok diff by (simp add: pool_inv_def len)
qed

lemma pool_inv_sorted_seeds: "pool_inv (sort_key dist (seed_chains fm d))"
  by (rule pool_inv_sub [of _ "seed_chains fm d"]) (simp_all add: pool_inv_seeds)

lemma sorted_distinct_remdups_adj:
  "sorted xs \<Longrightarrow> sorted (remdups_adj xs) \<and> distinct (remdups_adj xs)"
  by (induction xs rule: remdups_adj.induct) auto

lemma chain_ok_length: "chain_ok c \<Longrightarrow> 3 \<le> length (components c) \<longleftrightarrow> 3 \<le> card (set (components c))"
  using card_length [of "components c"] by (auto simp: chain_ok_def)

text \<open>
  C3. In either rounding mode the merge loop on the sorted seeds returns a pool of chains,
  and \<^verbatim>\<open>makeChains\<close> returns exactly the chains of that pool whose component set has at least 3 members, each
  with its component list sorted and deduplicated: every returned chain has at least 3
  distinct component indices and a duplicate-free (sorted) component list.
\<close>

theorem C3_accepted_chains:
  "\<exists>fix result. merge_loop fm d (sort_key dist (seed_chains fm d)) = Some fix
     \<and> makeChains fm d = Some result
     \<and> result = map dedup_components (filter (\<lambda>c. 3 \<le> card (set (components c))) fix)
     \<and> (\<forall>c \<in> set result. 3 \<le> card (set (components c)) \<and> distinct (components c)
            \<and> sorted (components c))"
proof -
  have "\<exists>chs'. pool_inv chs' \<and> snd (merge_pass fm d chs') = 0
           \<and> merge_loop fm d (sort_key dist (seed_chains fm d)) = Some (fst (merge_pass fm d chs'))"
    by (rule merge_loop_result [where P = pool_inv]) (erule merge_pass_pool, rule pool_inv_sorted_seeds)
  then obtain chs' where "pool_inv chs'"
    and loop: "merge_loop fm d (sort_key dist (seed_chains fm d)) = Some (fst (merge_pass fm d chs'))"
    by (elim exE conjE)
  let ?fix = "fst (merge_pass fm d chs')"
  have inv: "pool_inv ?fix" using \<open>pool_inv chs'\<close> by (rule merge_pass_pool)
  have f: "filter (\<lambda>c. 3 \<le> length (components c)) ?fix
         = filter (\<lambda>c. 3 \<le> card (set (components c))) ?fix"
    using inv by (intro filter_cong) (auto simp: pool_inv_def chain_ok_length)
  let ?result = "map dedup_components (filter (\<lambda>c. 3 \<le> card (set (components c))) ?fix)"
  have res: "makeChains fm d = Some ?result"
    by (simp add: makeChains_def loop accept_chains_def f)
  have "3 \<le> card (set (components c)) \<and> distinct (components c) \<and> sorted (components c)"
    if "c \<in> set ?result" for c
  proof -
    from that obtain c0 where c0: "3 \<le> card (set (components c0))" "c = dedup_components c0"
      by auto
    have "components c = remdups_adj (sort (components c0))"
      by (simp add: c0(2) dedup_components_def)
    then show ?thesis using c0(1)
      using sorted_distinct_remdups_adj [of "sort (components c0)"] by simp
  qed
  then show ?thesis using loop res by blast
qed

text \<open>
  In exact arithmetic the loop does what the specification says of it: the lemmas up to
  \<open>exact_fixpoint_no_mergeable_pair\<close> are about the mode \<open>exact\<close>.
\<close>

lemma chain_direction_exact:
  "chain_direction exact d p q =
     (let d_x = fx (compCenters d ! p) - fx (compCenters d ! q);
          d_y = fy (compCenters d ! p) - fy (compCenters d ! q);
          mag = sqrt (d_x * d_x + d_y * d_y)
      in \<lparr>fx = d_x / mag, fy = d_y / mag\<rparr>)"
  by (simp add: chain_direction_def)

lemma strictness_exact: "strictness exact = PI / 6"
  by (simp add: strictness_def PI_d_def)

lemma aligned_same_exact:
  "aligned_same exact ci cj \<longleftrightarrow>
     angle_below exact (fx (direction ci) * fx (direction cj) + fy (direction ci) * fy (direction cj))"
  by (simp add: aligned_same_def)

lemma aligned_opposite_exact:
  "aligned_opposite exact ci cj \<longleftrightarrow>
     angle_below exact (fx (direction ci) * - fx (direction cj) + fy (direction ci) * - fy (direction cj))"
  by (simp add: aligned_opposite_def)

lemma angle_belowD: "angle_below m v \<Longrightarrow> arccos v < strictness m"
  by (simp add: angle_below_def)

lemma chain_direction_swap:
  "fx (chain_direction exact d q p) = - fx (chain_direction exact d p q)"
  "fy (chain_direction exact d q p) = - fy (chain_direction exact d p q)"
proof -
  let ?ax = "fx (compCenters d ! p)" and ?ay = "fy (compCenters d ! p)"
  let ?bx = "fx (compCenters d ! q)" and ?by = "fy (compCenters d ! q)"
  have m: "(?bx - ?ax) * (?bx - ?ax) + (?by - ?ay) * (?by - ?ay)
         = (?ax - ?bx) * (?ax - ?bx) + (?ay - ?by) * (?ay - ?by)"
    by (simp add: algebra_simps)
  have x: "?bx - ?ax = - (?ax - ?bx)" and y: "?by - ?ay = - (?ay - ?by)" by simp_all
  show "fx (chain_direction exact d q p) = - fx (chain_direction exact d p q)"
    unfolding chain_direction_exact Let_def m by (simp only: x Point2dFloat.simps minus_divide_left)
  show "fy (chain_direction exact d q p) = - fy (chain_direction exact d p q)"
    unfolding chain_direction_exact Let_def m by (simp only: y Point2dFloat.simps minus_divide_left)
qed

lemma chain_direction_norm:
  "fx (chain_direction exact d p q) * fx (chain_direction exact d p q)
     + fy (chain_direction exact d p q) * fy (chain_direction exact d p q) = 0
   \<or> fx (chain_direction exact d p q) * fx (chain_direction exact d p q)
     + fy (chain_direction exact d p q) * fy (chain_direction exact d p q) = 1"
proof -
  define a where "a = fx (compCenters d ! p) - fx (compCenters d ! q)"
  define b where "b = fy (compCenters d ! p) - fy (compCenters d ! q)"
  define s where "s = a * a + b * b"
  have s0: "0 \<le> s" by (simp add: s_def)
  have sq: "sqrt s * sqrt s = s" using s0 by simp
  have "a / sqrt s * (a / sqrt s) + b / sqrt s * (b / sqrt s) = (a * a + b * b) / (sqrt s * sqrt s)"
    by (simp add: add_divide_distrib)
  also have "\<dots> = s / s" by (simp add: sq s_def)
  finally have "a / sqrt s * (a / sqrt s) + b / sqrt s * (b / sqrt s) = (if s = 0 then 0 else 1)"
    by simp
  then show ?thesis
    by (auto simp: chain_direction_exact Let_def a_def b_def s_def)
qed

lemma strictness_less: "strictness exact < pi / 2"
  using pi_ge_two by (simp add: strictness_exact PI_def)

lemma not_below_strictness:
  assumes "v = 0 \<or> v = 1"
  shows "\<not> arccos (- v) < strictness exact"
proof -
  have "arccos (- v) = pi / 2 \<or> arccos (- v) = pi"
    using assms by (auto simp: arccos_minus_1)
  then show ?thesis using strictness_less pi_ge_two by auto
qed

lemma same_ends_not_opposite:
  assumes "direction a = chain_direction exact d p q" "direction b = chain_direction exact d p q"
  shows "\<not> aligned_opposite exact a b"
proof -
  let ?v = "chain_direction exact d p q"
  have "fx ?v * - fx ?v + fy ?v * - fy ?v = - (fx ?v * fx ?v + fy ?v * fy ?v)"
    by simp
  then show ?thesis
    using not_below_strictness [OF chain_direction_norm [of d p q]]
      angle_belowD [of exact "fx ?v * - fx ?v + fy ?v * - fy ?v"]
    by (auto simp: aligned_opposite_exact assms)
qed

lemma swapped_ends_not_same:
  assumes "direction a = chain_direction exact d p q" "direction b = chain_direction exact d q p"
  shows "\<not> aligned_same exact a b"
proof -
  let ?v = "chain_direction exact d p q"
  have "fx ?v * fx (chain_direction exact d q p) + fy ?v * fy (chain_direction exact d q p)
          = - (fx ?v * fx ?v + fy ?v * fy ?v)"
    by (simp add: chain_direction_swap [of d q p])
  then show ?thesis
    using not_below_strictness [OF chain_direction_norm [of d p q]]
      angle_belowD [of exact "fx ?v * fx (chain_direction exact d q p) + fy ?v * fy (chain_direction exact d q p)"]
    by (auto simp: aligned_same_exact assms)
qed

lemma merge_into_fields [simp]:
  "cp (merge_into exact d ci cj p q) = p" "cq (merge_into exact d ci cj p q) = q"
  "direction (merge_into exact d ci cj p q) = chain_direction exact d p q"
  by (simp_all add: merge_into_def)

lemma try_merge_wf:
  assumes "chain_wf exact d ci" "chain_wf exact d cj" "try_merge exact d ci cj = Some c"
  shows "chain_wf exact d c"
proof -
  have i: "cp ci \<noteq> cq ci" "direction ci = chain_direction exact d (cp ci) (cq ci)"
    and j: "cp cj \<noteq> cq cj" "direction cj = chain_direction exact d (cp cj) (cq cj)"
    using assms(1,2) by (simp_all add: chain_wf_def)
  consider (pp) "cp ci = cp cj" "aligned_opposite exact ci cj" "c = merge_into exact d ci cj (cq cj) (cq ci)"
    | (pq) "cp ci \<noteq> cp cj" "cp ci = cq cj" "aligned_same exact ci cj" "c = merge_into exact d ci cj (cp cj) (cq ci)"
    | (qp) "cp ci \<noteq> cq cj" "cq ci = cp cj" "c = merge_into exact d ci cj (cp ci) (cq cj)"
    | (qq) "cp ci \<noteq> cp cj" "cq ci = cq cj" "c = merge_into exact d ci cj (cp ci) (cp cj)"
    using assms(3) by (auto simp: try_merge_def split: if_splits)
  then show ?thesis
  proof cases
    case pp
    have "cq cj \<noteq> cq ci"
    proof
      assume "cq cj = cq ci"
      then have "\<not> aligned_opposite exact ci cj"
        using i(2) j(2) pp(1) by (intro same_ends_not_opposite [of ci d "cp ci" "cq ci"]) simp_all
      then show False using pp(2) by simp
    qed
    then show ?thesis by (simp add: chain_wf_def pp(3))
  next
    case pq
    have "cp cj \<noteq> cq ci"
    proof
      assume "cp cj = cq ci"
      then have "\<not> aligned_same exact ci cj"
        using i(2) j(2) pq(2) by (intro swapped_ends_not_same [of ci d "cp ci" "cq ci"]) simp_all
      then show False using pq(3) by simp
    qed
    then show ?thesis by (simp add: chain_wf_def pq(4))
  next
    case qp
    then show ?thesis by (simp add: chain_wf_def)
  next
    case qq
    then show ?thesis by (simp add: chain_wf_def)
  qed
qed

lemma chain_wf_merged_update [simp]: "chain_wf exact d (c\<lparr>merged := b\<rparr>) = chain_wf exact d c"
  by (simp add: chain_wf_def)

lemma merge_step_wf:
  assumes inv: "(\<forall>c \<in> set (fst s). chain_wf exact d c) \<and> length (fst s) = n" and i: "i < n" and j: "j < n"
  shows "(\<forall>c \<in> set (fst (merge_step exact d i s j)). chain_wf exact d c) \<and> length (fst (merge_step exact d i s j)) = n"
proof -
  obtain chs m where s: "s = (chs, m)" by (cases s)
  have len: "length chs = n" and wf: "\<And>c. c \<in> set chs \<Longrightarrow> chain_wf exact d c"
    using inv by (auto simp: s)
  show ?thesis
  proof (cases "i \<noteq> j \<and> \<not> merged (chs ! i) \<and> \<not> merged (chs ! j) \<and> sharesOneEnd (chs ! i) (chs ! j)")
    case False
    then show ?thesis using inv by (auto simp: merge_step_def s)
  next
    case True
    show ?thesis
    proof (cases "try_merge exact d (chs ! i) (chs ! j)")
      case None
      then show ?thesis using inv True by (simp add: merge_step_def s)
    next
      case (Some c)
      let ?cj = "(chs ! j)\<lparr>merged := True\<rparr>"
      have res: "merge_step exact d i s j = (chs[i := c, j := ?cj], m + 1)"
        using True Some by (simp add: merge_step_def s)
      have wi: "chain_wf exact d (chs ! i)" and wj: "chain_wf exact d (chs ! j)"
        using wf i j len by simp_all
      have c: "chain_wf exact d c" using wi wj Some by (rule try_merge_wf)
      have "set (chs[i := c, j := ?cj]) \<subseteq> insert ?cj (insert c (set chs))"
        using set_update_subset_insert [of "chs[i := c]" j ?cj] set_update_subset_insert [of chs i c]
        by auto
      then have "\<forall>x \<in> set (chs[i := c, j := ?cj]). chain_wf exact d x"
        using c wj wf by auto
      then show ?thesis using len by (simp add: res)
    qed
  qed
qed

lemma merge_pass_wf:
  assumes "\<forall>c \<in> set chs. chain_wf exact d c"
  shows "\<forall>c \<in> set (fst (merge_pass exact d chs)). chain_wf exact d c"
proof -
  let ?chs = "map (\<lambda>c. c\<lparr>merged := False\<rparr>) chs"
  let ?n = "length chs"
  obtain chs1 m where f: "foldl (\<lambda>s i. foldl (merge_step exact d i) s [0..<?n]) (?chs, 0) [0..<?n] = (chs1, m)"
    by (cases "foldl (\<lambda>s i. foldl (merge_step exact d i) s [0..<?n]) (?chs, 0) [0..<?n]")
  have "(\<forall>c \<in> set (fst (foldl (\<lambda>s i. foldl (merge_step exact d i) s [0..<?n]) (?chs, 0) [0..<?n])). chain_wf exact d c)
      \<and> length (fst (foldl (\<lambda>s i. foldl (merge_step exact d i) s [0..<?n]) (?chs, 0) [0..<?n])) = ?n"
  proof (rule merge_folds_inv [where Q = "\<lambda>s. (\<forall>c \<in> set (fst s). chain_wf exact d c) \<and> length (fst s) = ?n"])
    fix s :: "Chain list \<times> nat" and i j
    assume "(\<forall>c \<in> set (fst s). chain_wf exact d c) \<and> length (fst s) = ?n" "i < ?n" "j < ?n"
    then show "(\<forall>c \<in> set (fst (merge_step exact d i s j)). chain_wf exact d c)
                 \<and> length (fst (merge_step exact d i s j)) = ?n"
      by (rule merge_step_wf)
  next
    show "(\<forall>c \<in> set (fst (?chs, 0::nat)). chain_wf exact d c) \<and> length (fst (?chs, 0::nat)) = ?n"
      using assms by simp
  qed
  then have "\<forall>c \<in> set chs1. chain_wf exact d c" unfolding f by simp
  then show ?thesis unfolding merge_pass_unfold [OF f] by simp
qed

lemma seeds_wf: "\<forall>c \<in> set (sort_key dist (seed_chains exact d)). chain_wf exact d c"
proof -
  have "chain_wf exact d (seed_chain exact d p)" if "p \<in> set (seed_pairs n)" for p n
    using seed_pairs_less [of "fst p" "snd p" n] that
    by (cases p) (simp add: chain_wf_def seed_chain_def)
  then show ?thesis by (auto simp: seed_chains_def)
qed

lemma merge_step_cases:
  "(merge_step exact d i s j = s \<and> \<not> (i \<noteq> j \<and> mergeable exact d (fst s ! i) (fst s ! j)))
   \<or> snd (merge_step exact d i s j) = snd s + 1"
  by (cases s) (auto simp: merge_step_def mergeable_def split: option.splits)

lemma merge_inner_zero:
  "snd s \<le> snd (foldl (merge_step exact d i) s js)
   \<and> (snd (foldl (merge_step exact d i) s js) = snd s \<longrightarrow>
        foldl (merge_step exact d i) s js = s
        \<and> (\<forall>j \<in> set js. \<not> (i \<noteq> j \<and> mergeable exact d (fst s ! i) (fst s ! j))))"
proof (induction js arbitrary: s)
  case Nil
  then show ?case by simp
next
  case (Cons j js)
  let ?s = "merge_step exact d i s j"
  note IH = Cons.IH [of ?s]
  from merge_step_cases [of d i s j] show ?case
  proof
    assume "?s = s \<and> \<not> (i \<noteq> j \<and> mergeable exact d (fst s ! i) (fst s ! j))"
    then show ?thesis using IH by auto
  next
    assume "snd ?s = snd s + 1"
    then show ?thesis using IH by auto
  qed
qed

lemma merge_outer_zero:
  "snd s \<le> snd (foldl (\<lambda>s i. foldl (merge_step exact d i) s js) s is)
   \<and> (snd (foldl (\<lambda>s i. foldl (merge_step exact d i) s js) s is) = snd s \<longrightarrow>
        foldl (\<lambda>s i. foldl (merge_step exact d i) s js) s is = s
        \<and> (\<forall>i \<in> set is. \<forall>j \<in> set js. \<not> (i \<noteq> j \<and> mergeable exact d (fst s ! i) (fst s ! j))))"
proof (induction "is" arbitrary: s)
  case Nil
  then show ?case by simp
next
  case (Cons i "is")
  let ?s = "foldl (merge_step exact d i) s js"
  note IH = Cons.IH [of ?s]
  note inner = merge_inner_zero [of s d i js]
  show ?case
  proof (cases "snd ?s = snd s")
    case True
    then have "?s = s" "\<forall>j \<in> set js. \<not> (i \<noteq> j \<and> mergeable exact d (fst s ! i) (fst s ! j))"
      using inner by simp_all
    then show ?thesis using IH by auto
  next
    case False
    then have "snd s < snd ?s" using inner by simp
    then show ?thesis using IH by auto
  qed
qed

lemma wf_not_mergeable:
  assumes a: "chain_wf exact d a" and b: "chain_wf exact d b" and m: "\<not> merged a" "\<not> merged b"
    and n: "\<not> mergeable exact d a b"
  shows "no_merge exact a b"
proof -
  have pq: "cp a \<noteq> cq a" "cp b \<noteq> cq b" using a b by (simp_all add: chain_wf_def)
  have "\<not> sharesOneEnd a b \<or> try_merge exact d a b = None"
    using n m by (simp add: mergeable_def)
  then show ?thesis
    using pq by (auto simp: no_merge_def sharesOneEnd_def try_merge_def split: if_splits)
qed

lemma zero_pass_no_merge:
  assumes wf: "\<forall>c \<in> set chs. chain_wf exact d c" and z: "snd (merge_pass exact d chs) = 0"
    and ij: "i < length (fst (merge_pass exact d chs))" "j < length (fst (merge_pass exact d chs))" "i \<noteq> j"
  shows "no_merge exact (fst (merge_pass exact d chs) ! i) (fst (merge_pass exact d chs) ! j)"
proof -
  let ?chs = "map (\<lambda>c. c\<lparr>merged := False\<rparr>) chs"
  let ?n = "length chs"
  let ?R = "\<lambda>a b. chain_wf exact d a \<and> chain_wf exact d b \<and> \<not> merged a \<and> \<not> merged b \<and> \<not> mergeable exact d a b"
  obtain chs1 m where f: "foldl (\<lambda>s i. foldl (merge_step exact d i) s [0..<?n]) (?chs, 0) [0..<?n] = (chs1, m)"
    by (cases "foldl (\<lambda>s i. foldl (merge_step exact d i) s [0..<?n]) (?chs, 0) [0..<?n]")
  note p = merge_pass_unfold [OF f]
  have m0: "m = 0" using z by (simp add: p)
  have z0: "chs1 = ?chs \<and> (\<forall>i \<in> set [0..<?n]. \<forall>j \<in> set [0..<?n].
              \<not> (i \<noteq> j \<and> mergeable exact d (?chs ! i) (?chs ! j)))"
    using merge_outer_zero [of "(?chs, 0)" d "[0..<?n]" "[0..<?n]"] unfolding f m0 by simp
  then have same: "chs1 = ?chs" by simp
  have none: "\<not> mergeable exact d (?chs ! k) (?chs ! l)" if "k < ?n" "l < ?n" "k \<noteq> l" for k l
  proof -
    have "k \<in> set [0..<?n]" "l \<in> set [0..<?n]" using that by simp_all
    then have "\<not> (k \<noteq> l \<and> mergeable exact d (?chs ! k) (?chs ! l))" using z0 by blast
    then show ?thesis using that by simp
  qed
  have R: "?R (?chs ! k) (?chs ! l)" if "k < length ?chs" "l < length ?chs" "k \<noteq> l" for k l
    using that wf none [of k l] by simp
  let ?res = "sort_key (\<lambda>c. - int (length (components c))) (filter (\<lambda>c. \<not> merged c) ?chs)"
  have res: "fst (merge_pass exact d chs) = ?res" by (simp add: p same)
  have "mset ?res \<subseteq># mset ?chs" by simp
  then have "?R (?res ! i) (?res ! j)"
    using R ij unfolding res by (rule pairwise_nth_mono [where R = ?R])
  then show ?thesis unfolding res by (auto intro: wf_not_mergeable)
qed

lemma no_merge_dedup [simp]: "no_merge exact (dedup_components a) (dedup_components b) = no_merge exact a b"
  by (simp add: no_merge_def dedup_components_def aligned_same_exact aligned_opposite_exact)

text \<open>
  In exact arithmetic, in the pool the merge loop returns and in the list \<^verbatim>\<open>makeChains\<close>
  returns, no two chains at different positions are still mergeable: for each of the
  matchings p-p, p-q, q-p, q-q under which they share an endpoint index, the \<^verbatim>\<open>acos\<close> of
  the sign-corrected dot product of their directions is not below \<^verbatim>\<open>strictness\<close>.
\<close>

lemma exact_fixpoint_no_mergeable_pair:
  "\<exists>pool. merge_loop exact d (sort_key dist (seed_chains exact d)) = Some pool
     \<and> makeChains exact d = Some (accept_chains pool)
     \<and> (\<forall>i<length pool. \<forall>j<length pool. i \<noteq> j \<longrightarrow> no_merge exact (pool ! i) (pool ! j))
     \<and> (\<forall>i<length (accept_chains pool). \<forall>j<length (accept_chains pool). i \<noteq> j \<longrightarrow>
            no_merge exact (accept_chains pool ! i) (accept_chains pool ! j))"
proof -
  have "\<exists>chs'. (\<forall>c \<in> set chs'. chain_wf exact d c) \<and> snd (merge_pass exact d chs') = 0
           \<and> merge_loop exact d (sort_key dist (seed_chains exact d)) = Some (fst (merge_pass exact d chs'))"
    by (rule merge_loop_result [where P = "\<lambda>chs. \<forall>c \<in> set chs. chain_wf exact d c"])
       (erule merge_pass_wf, rule seeds_wf)
  then obtain chs' where wf: "\<forall>c \<in> set chs'. chain_wf exact d c" and z: "snd (merge_pass exact d chs') = 0"
    and loop: "merge_loop exact d (sort_key dist (seed_chains exact d)) = Some (fst (merge_pass exact d chs'))"
    by (elim exE conjE)
  let ?pool = "fst (merge_pass exact d chs')"
  let ?kept = "filter (\<lambda>c. 3 \<le> length (components c)) ?pool"
  have 1: "no_merge exact (?pool ! i) (?pool ! j)" if "i < length ?pool" "j < length ?pool" "i \<noteq> j" for i j
    using wf z that by (rule zero_pass_no_merge)
  have "mset ?kept \<subseteq># mset ?pool" by simp
  then have 2: "no_merge exact (?kept ! i) (?kept ! j)" if "i < length ?kept" "j < length ?kept" "i \<noteq> j" for i j
    using 1 that by (rule pairwise_nth_mono [where R = "no_merge exact"])
  have 3: "no_merge exact (accept_chains ?pool ! i) (accept_chains ?pool ! j)"
    if "i < length (accept_chains ?pool)" "j < length (accept_chains ?pool)" "i \<noteq> j" for i j
    using 2 [of i j] that by (simp add: accept_chains_def)
  have "makeChains exact d = Some (accept_chains ?pool)"
    by (simp add: makeChains_def loop)
  then show ?thesis using loop 1 3 by (intro exI [of _ ?pool]) simp
qed

lemma sqrt_100: "sqrt 100 = 10"
  by (rule real_sqrt_unique) simp_all

lemma sqrt_400: "sqrt 400 = 20"
  by (rule real_sqrt_unique) simp_all

lemma seed_pairs_3: "seed_pairs 3 = [(0, Suc 0), (0, 2), (Suc 0, 2)]"
  by (simp add: seed_pairs_def eval_nat_numeral upt_rec)

lemma fl_small:
  "to_float ieee 0 = 0" "to_float ieee 1 = 1" "to_float ieee (- 1) = - 1"
  "to_float ieee 10 = 10" "to_float ieee (- 10) = - 10" "to_float ieee 20 = 20"
  "to_float ieee (- 20) = - 20" "to_float ieee 100 = 100" "to_float ieee 400 = 400"
  "to_float ieee 2 = 2" "to_float ieee 3 = 3" "to_float ieee 5 = 5" "to_float ieee 8 = 8"
  "to_float ieee 64 = 64" "to_float ieee (1 / 2) = 1 / 2"
  "to_float ieee (1 / 3) = 11184811 / 33554432"
  "to_float ieee (25 / 16) = 25 / 16" "to_float ieee (25 / 4) = 25 / 4"
  by (simp_all add: ieee_eval)

lemma ieee_consts2:
  "strictness ieee = 4392265 / 8388608"
  "to_double ieee COM_MAX_DIST_RATIO = 3602879701896397 / 2251799813685248"
  by (simp_all add: strictness_def PI_d_def PI_def COM_MAX_DIST_RATIO_def ieee_eval)

lemma ex_line_directions:
  "chain_direction ieee ex_line 0 (Suc 0) = \<lparr>fx = - 1, fy = 0\<rparr>"
  "chain_direction ieee ex_line (Suc 0) 2 = \<lparr>fx = - 1, fy = 0\<rparr>"
  "chain_direction ieee ex_line 0 2 = \<lparr>fx = - 1, fy = 0\<rparr>"
  by (simp_all add: chain_direction_def ex_line_def fl_small sqrt_100 sqrt_400)

lemma ex_line_dist:
  "seed_dist ieee ex_line 0 (Suc 0) = 100" "seed_dist ieee ex_line 0 2 = 400"
  "seed_dist ieee ex_line (Suc 0) 2 = 100"
  by (simp_all add: seed_dist_def ex_line_def fl_small trunc_def square_def)

lemma ex_line_eligible:
  "eligible ieee ex_line (0, Suc 0)" "\<not> eligible ieee ex_line (0, 2)" "eligible ieee ex_line (Suc 0, 2)"
  by (simp_all add: eligible_def ex_line_dist ieee_consts2)
     (simp_all add: ex_line_def ratio_within_def square_def fl_small
      COM_MAX_MEDIAN_RATIO_def COM_MAX_DIM_RATIO_def ieee_eval)


lemma ex_line_seeds: "seed_chains ieee ex_line = [ex_seed01, ex_seed12]"
proof -
  have "length (validComponents ex_line) = 3" by (simp add: ex_line_def)
  then have "seed_chains ieee ex_line
      = [seed_chain ieee ex_line (0, Suc 0), seed_chain ieee ex_line (Suc 0, 2)]"
    by (simp add: seed_chains_def seed_pairs_3 ex_line_eligible)
  moreover have "seed_chain ieee ex_line (0, Suc 0) = ex_seed01"
    "seed_chain ieee ex_line (Suc 0, 2) = ex_seed12"
    by (simp_all add: seed_chain_def ex_line_directions ex_line_dist ex_seed01_def ex_seed12_def)
  ultimately show ?thesis by simp
qed

lemma ex_line_sorted: "sort_key dist (seed_chains ieee ex_line) = [ex_seed01, ex_seed12]"
  by (simp add: ex_line_seeds) (simp add: ex_seed01_def ex_seed12_def)

lemma ex_chain_fields:
  "cp ex_seed01 = 0" "cq ex_seed01 = Suc 0" "cp ex_seed12 = Suc 0" "cq ex_seed12 = 2"
  "cp ex_chain02 = 0" "cq ex_chain02 = 2"
  "\<not> merged ex_seed01" "\<not> merged ex_seed12" "\<not> merged ex_chain02"
  "ex_seed01\<lparr>merged := False\<rparr> = ex_seed01" "ex_seed12\<lparr>merged := False\<rparr> = ex_seed12"
  "ex_chain02\<lparr>merged := False\<rparr> = ex_chain02"
  "components ex_seed01 = [0, 1]" "components ex_seed12 = [1, 2]"
  "components ex_chain02 = [0, 1, 1, 2]"
  by (simp_all add: ex_seed01_def ex_seed12_def ex_chain02_def)

lemma ex_line_try_merge: "try_merge ieee ex_line ex_seed01 ex_seed12 = Some ex_chain02"
proof -
  have a: "aligned_same ieee ex_seed01 ex_seed12"
    by (simp add: aligned_same_def ex_seed01_def ex_seed12_def fl_small angle_below_def ieee_consts2)
  have d: "chain_dist ieee ex_line 0 2 = 400"
    by (simp add: chain_dist_def ex_line_def fl_small)
  have m: "merge_into ieee ex_line ex_seed01 ex_seed12 0 2 = ex_chain02"
    by (simp add: merge_into_def d ex_line_directions) (simp add: ex_seed01_def ex_seed12_def ex_chain02_def)
  show ?thesis
    by (simp add: try_merge_def ex_chain_fields a m)
qed

lemma ex_line_pass1: "merge_pass ieee ex_line [ex_seed01, ex_seed12] = ([ex_chain02], 1)"
  by (simp add: merge_pass_def merge_step_def upt_rec sharesOneEnd_def ex_chain_fields
      ex_line_try_merge)

lemma ex_line_pass2: "merge_pass ieee ex_line [ex_chain02] = ([ex_chain02], 0)"
  by (simp add: merge_pass_def merge_step_def upt_rec ex_chain_fields)

lemma ex_line_loop:
  "merge_loop ieee ex_line (sort_key dist (seed_chains ieee ex_line)) = Some [ex_chain02]"
  unfolding ex_line_sorted
  by (subst merge_loop.simps, simp add: ex_line_pass1, subst merge_loop.simps, simp add: ex_line_pass2)

lemma ex_line_result:
  "makeChains ieee ex_line = Some [ex_chain02\<lparr>components := [0, 1, 2]\<rparr>]"
  by (simp add: makeChains_def ex_line_loop accept_chains_def ex_chain_fields dedup_components_def)

lemma ex_corner_directions:
  "chain_direction ieee ex_corner 0 (Suc 0) = \<lparr>fx = - 1, fy = 0\<rparr>"
  "chain_direction ieee ex_corner (Suc 0) 2 = \<lparr>fx = 0, fy = - 1\<rparr>"
  by (simp_all add: chain_direction_def ex_corner_def ex_line_def fl_small sqrt_100)

lemma ex_corner_dist:
  "seed_dist ieee ex_corner 0 (Suc 0) = 100" "seed_dist ieee ex_corner 0 2 = 200"
  "seed_dist ieee ex_corner (Suc 0) 2 = 100"
  by (simp_all add: seed_dist_def ex_corner_def ex_line_def fl_small trunc_def square_def ieee_eval)

lemma ex_corner_eligible:
  "eligible ieee ex_corner (0, Suc 0)" "\<not> eligible ieee ex_corner (0, 2)"
  "eligible ieee ex_corner (Suc 0, 2)"
  by (simp_all add: eligible_def ex_corner_dist ieee_consts2)
     (simp_all add: ex_corner_def ex_line_def ratio_within_def square_def fl_small
      COM_MAX_MEDIAN_RATIO_def COM_MAX_DIM_RATIO_def ieee_eval)

lemma ex_corner_seeds: "seed_chains ieee ex_corner = [ex_seed01, ex_seed12']"
proof -
  have "length (validComponents ex_corner) = 3" by (simp add: ex_corner_def ex_line_def)
  then have "seed_chains ieee ex_corner
      = [seed_chain ieee ex_corner (0, Suc 0), seed_chain ieee ex_corner (Suc 0, 2)]"
    by (simp add: seed_chains_def seed_pairs_3 ex_corner_eligible)
  moreover have "seed_chain ieee ex_corner (0, Suc 0) = ex_seed01"
    "seed_chain ieee ex_corner (Suc 0, 2) = ex_seed12'"
    by (simp_all add: seed_chain_def ex_corner_directions ex_corner_dist ex_seed01_def ex_seed12'_def)
  ultimately show ?thesis by simp
qed

lemma ex_corner_fields:
  "cp ex_seed12' = Suc 0" "cq ex_seed12' = 2" "\<not> merged ex_seed12'"
  "ex_seed12'\<lparr>merged := False\<rparr> = ex_seed12'" "components ex_seed12' = [1, 2]"
  by (simp_all add: ex_seed12'_def)

lemma strictness_ieee_less: "strictness ieee < pi / 2"
  using pi_ge_two by (simp add: ieee_consts2)

lemma ex_corner_not_aligned:
  "\<not> aligned_same ieee ex_seed01 ex_seed12'" "\<not> aligned_same ieee ex_seed12' ex_seed01"
  using strictness_ieee_less
  by (simp_all add: aligned_same_def ex_seed01_def ex_seed12'_def fl_small angle_below_def)

lemma ex_corner_pass:
  "merge_pass ieee ex_corner [ex_seed01, ex_seed12'] = ([ex_seed01, ex_seed12'], 0)"
  by (simp add: merge_pass_def merge_step_def upt_rec sharesOneEnd_def ex_chain_fields
      ex_corner_fields try_merge_def ex_corner_not_aligned)

lemma ex_corner_loop:
  "merge_loop ieee ex_corner (sort_key dist (seed_chains ieee ex_corner)) = Some [ex_seed01, ex_seed12']"
proof -
  have "sort_key dist (seed_chains ieee ex_corner) = [ex_seed01, ex_seed12']"
    by (simp add: ex_corner_seeds) (simp add: ex_seed01_def ex_seed12'_def)
  then show ?thesis
    by (subst merge_loop.simps) (simp add: ex_corner_pass)
qed

theorem C9_merge_loop_terminates_witness:
  "merge_loop ieee ex_line [ex_seed01, ex_seed12] = Some [ex_chain02]
   \<and> snd (merge_pass ieee ex_line [ex_seed01, ex_seed12]) = 1
   \<and> length (fst (merge_pass ieee ex_line [ex_seed01, ex_seed12])) < length [ex_seed01, ex_seed12]"
proof -
  have m: "snd (merge_pass ieee ex_line [ex_seed01, ex_seed12]) = 1"
    by (simp add: ex_line_pass1)
  have "length (fst (merge_pass ieee ex_line [ex_seed01, ex_seed12])) < length [ex_seed01, ex_seed12]"
    using C9_merge_loop_terminates [of ieee ex_line "[ex_seed01, ex_seed12]"] m by simp
  then show ?thesis using m ex_line_loop by (simp add: ex_line_sorted)
qed

theorem C3_accepted_chains_witness:
  "makeChains ieee ex_line = Some [ex_chain02\<lparr>components := [0, 1, 2]\<rparr>]
   \<and> 3 \<le> card (set (components (ex_chain02\<lparr>components := [0, 1, 2]\<rparr>)))
   \<and> distinct (components (ex_chain02\<lparr>components := [0, 1, 2]\<rparr>))
   \<and> makeChains ieee ex_corner = Some []"
proof -
  from C3_accepted_chains [of ieee ex_line]
  obtain result where "makeChains ieee ex_line = Some result"
    and all: "\<forall>c \<in> set result. 3 \<le> card (set (components c)) \<and> distinct (components c)
            \<and> sorted (components c)"
    by (elim exE conjE)
  then have "result = [ex_chain02\<lparr>components := [0, 1, 2]\<rparr>]"
    by (simp add: ex_line_result)
  then have "3 \<le> card (set (components (ex_chain02\<lparr>components := [0, 1, 2]\<rparr>)))
      \<and> distinct (components (ex_chain02\<lparr>components := [0, 1, 2]\<rparr>))"
    using all by simp
  moreover have "makeChains ieee ex_corner = Some []"
    by (simp add: makeChains_def ex_corner_loop accept_chains_def ex_chain_fields ex_corner_fields)
  ultimately show ?thesis using ex_line_result by simp
qed


lemma fl_slant:
  "to_float ieee 13 = 13" "to_float ieee (- 13) = - 13" "to_float ieee 169 = 169"
  "to_float ieee 170 = 170" "to_float ieee 680 = 680" "to_float ieee 4 = 4"
  "to_float ieee 11 = 11" "to_float ieee 121 = 121"
  "to_float ieee (170 / 121) = 736603 / 524288" "to_float ieee (680 / 121) = 736603 / 131072"
  "to_float ieee (- (524288 / 6835879)) = - (5147015 / 67108864)"
  "to_float ieee (- (6815744 / 6835879)) = - (16727799 / 16777216)"
  by (simp_all add: ieee_eval)

lemma ex_slant_directions:
  "chain_direction ieee ex_slant 0 (Suc 0) = ex_slant_dir"
  "chain_direction ieee ex_slant (Suc 0) 2 = ex_slant_dir"
  by (simp_all add: chain_direction_def ex_slant_def fl_small fl_slant fl_sqrt_170 ex_slant_dir_def)

lemma ex_slant_dist:
  "seed_dist ieee ex_slant 0 (Suc 0) = 170" "seed_dist ieee ex_slant 0 2 = 680"
  "seed_dist ieee ex_slant (Suc 0) 2 = 170"
  by (simp_all add: seed_dist_def ex_slant_def fl_small fl_slant trunc_def square_def ieee_eval)

lemma ex_slant_eligible:
  "eligible ieee ex_slant (0, Suc 0)" "\<not> eligible ieee ex_slant (0, 2)"
  "eligible ieee ex_slant (Suc 0, 2)"
  by (simp_all add: eligible_def ex_slant_dist ieee_consts2)
     (simp_all add: ex_slant_def ratio_within_def square_def fl_small fl_slant
      COM_MAX_MEDIAN_RATIO_def COM_MAX_DIM_RATIO_def)

lemma ex_slant_seeds: "seed_chains ieee ex_slant = [ex_slant01, ex_slant12]"
proof -
  have "length (validComponents ex_slant) = 3" by (simp add: ex_slant_def)
  then have "seed_chains ieee ex_slant
      = [seed_chain ieee ex_slant (0, Suc 0), seed_chain ieee ex_slant (Suc 0, 2)]"
    by (simp add: seed_chains_def seed_pairs_3 ex_slant_eligible)
  moreover have "seed_chain ieee ex_slant (0, Suc 0) = ex_slant01"
    "seed_chain ieee ex_slant (Suc 0, 2) = ex_slant12"
    by (simp_all add: seed_chain_def ex_slant_directions ex_slant_dist ex_slant01_def ex_slant12_def)
  ultimately show ?thesis by simp
qed

lemma ex_slant_fields:
  "cp ex_slant01 = 0" "cq ex_slant01 = Suc 0" "cp ex_slant12 = Suc 0" "cq ex_slant12 = 2"
  "\<not> merged ex_slant01" "\<not> merged ex_slant12"
  "ex_slant01\<lparr>merged := False\<rparr> = ex_slant01" "ex_slant12\<lparr>merged := False\<rparr> = ex_slant12"
  "components ex_slant01 = [0, 1]" "components ex_slant12 = [1, 2]"
  "direction ex_slant01 = ex_slant_dir" "direction ex_slant12 = ex_slant_dir"
  "dist ex_slant01 = 170" "dist ex_slant12 = 170"
  by (simp_all add: ex_slant01_def ex_slant12_def)

lemma ex_slant_dot:
  "to_float ieee (to_float ieee (fx ex_slant_dir * fx ex_slant_dir)
                  + to_float ieee (fy ex_slant_dir * fy ex_slant_dir)) = 8388609 / 8388608"
  by (simp add: ex_slant_dir_def ieee_eval)

lemma ex_slant_not_aligned:
  "\<not> aligned_same ieee ex_slant01 ex_slant12" "\<not> aligned_same ieee ex_slant12 ex_slant01"
  by (simp_all add: aligned_same_def ex_slant_fields ex_slant_dot angle_below_def)

lemma ex_slant_pass:
  "merge_pass ieee ex_slant [ex_slant01, ex_slant12] = ([ex_slant01, ex_slant12], 0)"
  "merge_pass ieee ex_slant [ex_slant12, ex_slant01] = ([ex_slant12, ex_slant01], 0)"
  by (simp_all add: merge_pass_def merge_step_def upt_rec sharesOneEnd_def ex_slant_fields
      try_merge_def ex_slant_not_aligned)

lemma ex_slant_loop:
  "merge_loop ieee ex_slant [ex_slant01, ex_slant12] = Some [ex_slant01, ex_slant12]"
  "merge_loop ieee ex_slant [ex_slant12, ex_slant01] = Some [ex_slant12, ex_slant01]"
  by (subst merge_loop.simps, simp add: ex_slant_pass)+

lemma ex_slant_result: "makeChains ieee ex_slant = Some []"
proof -
  have "sort_key dist (seed_chains ieee ex_slant) = [ex_slant01, ex_slant12]"
    by (simp add: ex_slant_seeds) (simp add: ex_slant_fields)
  then show ?thesis
    by (simp add: makeChains_def ex_slant_loop accept_chains_def ex_slant_fields)
qed

lemma vector_angle_self:
  assumes "fx u \<noteq> 0 \<or> fy u \<noteq> 0"
  shows "vector_angle u u = 0"
proof -
  define n where "n = fx u * fx u + fy u * fy u"
  have pos: "0 < n" unfolding n_def using assms by (simp add: sum_squares_gt_zero_iff)
  then have "sqrt n * sqrt n = n" by simp
  then have "n / (sqrt n * sqrt n) = 1" using pos by simp
  then have "arccos (n / (sqrt n * sqrt n)) = 0" by simp
  then show ?thesis unfolding vector_angle_def n_def .
qed

lemma sqrt_680: "sqrt 680 = 2 * sqrt 170"
proof -
  have "sqrt 680 = sqrt (4 * 170)" by simp
  also have "\<dots> = sqrt 4 * sqrt 170" by (rule real_sqrt_mult)
  also have "sqrt 4 = 2" by (rule real_sqrt_unique) simp_all
  finally show ?thesis .
qed

lemma ex_slant_exact_directions:
  "chain_direction exact ex_slant 0 (Suc 0) = \<lparr>fx = - (1 / sqrt 170), fy = - (13 / sqrt 170)\<rparr>"
  "chain_direction exact ex_slant (Suc 0) 2 = \<lparr>fx = - (1 / sqrt 170), fy = - (13 / sqrt 170)\<rparr>"
  "chain_direction exact ex_slant 0 2 = \<lparr>fx = - (1 / sqrt 170), fy = - (13 / sqrt 170)\<rparr>"
  by (simp_all add: chain_direction_def ex_slant_def sqrt_680 Let_def)

lemma ex_slant_exact_eligible:
  "eligible exact ex_slant (0, Suc 0)" "\<not> eligible exact ex_slant (0, 2)"
  "eligible exact ex_slant (Suc 0, 2)"
  by (simp_all add: eligible_def seed_dist_def ex_slant_def ratio_within_def square_def trunc_def
      COM_MAX_MEDIAN_RATIO_def COM_MAX_DIM_RATIO_def COM_MAX_DIST_RATIO_def)

lemma ex_exact_fields:
  "cp ex_exact01 = 0" "cq ex_exact01 = Suc 0" "cp ex_exact12 = Suc 0" "cq ex_exact12 = 2"
  "cp ex_exact02 = 0" "cq ex_exact02 = 2"
  "\<not> merged ex_exact01" "\<not> merged ex_exact12" "\<not> merged ex_exact02"
  "ex_exact01\<lparr>merged := False\<rparr> = ex_exact01" "ex_exact12\<lparr>merged := False\<rparr> = ex_exact12"
  "ex_exact02\<lparr>merged := False\<rparr> = ex_exact02"
  "components ex_exact01 = [0, 1]" "components ex_exact12 = [1, 2]"
  "components ex_exact02 = [0, 1, 1, 2]"
  by (simp_all add: ex_exact01_def ex_exact12_def ex_exact02_def)

lemma ex_slant_exact_seeds: "seed_chains exact ex_slant = [ex_exact01, ex_exact12]"
proof -
  have "length (validComponents ex_slant) = 3" by (simp add: ex_slant_def)
  then have "seed_chains exact ex_slant
      = [seed_chain exact ex_slant (0, Suc 0), seed_chain exact ex_slant (Suc 0, 2)]"
    by (simp add: seed_chains_def seed_pairs_3 ex_slant_exact_eligible)
  moreover have "seed_chain exact ex_slant (0, Suc 0) = ex_exact01"
    "seed_chain exact ex_slant (Suc 0, 2) = ex_exact12"
    by (simp_all add: seed_chain_def ex_slant_exact_directions ex_exact01_def ex_exact12_def)
       (simp_all add: seed_dist_def ex_slant_def trunc_def square_def)
  ultimately show ?thesis by simp
qed

lemma ex_slant_exact_try_merge: "try_merge exact ex_slant ex_exact01 ex_exact12 = Some ex_exact02"
proof -
  have "1 / sqrt 170 * (1 / sqrt 170) + 13 / sqrt 170 * (13 / sqrt 170) = (1 + 169) / (sqrt 170 * sqrt 170)"
    by (simp add: add_divide_distrib)
  also have "\<dots> = 1" by simp
  finally have dot: "1 / sqrt 170 * (1 / sqrt 170) + 13 / sqrt 170 * (13 / sqrt 170) = 1" .
  have "0 < strictness exact" by (simp add: strictness_def PI_d_def PI_def)
  then have a: "aligned_same exact ex_exact01 ex_exact12"
    using dot by (simp add: aligned_same_def ex_exact01_def ex_exact12_def angle_below_def)
  have d: "chain_dist exact ex_slant 0 2 = 680"
    by (simp add: chain_dist_def ex_slant_def)
  have m: "merge_into exact ex_slant ex_exact01 ex_exact12 0 2 = ex_exact02"
    by (simp add: merge_into_def d ex_slant_exact_directions)
       (simp add: ex_exact01_def ex_exact12_def ex_exact02_def)
  show ?thesis
    by (simp add: try_merge_def ex_exact_fields a m)
qed

lemma ex_slant_exact_result:
  "makeChains exact ex_slant = Some [ex_exact02\<lparr>components := [0, 1, 2]\<rparr>]"
proof -
  have s: "sort_key dist (seed_chains exact ex_slant) = [ex_exact01, ex_exact12]"
    by (simp add: ex_slant_exact_seeds) (simp add: ex_exact01_def ex_exact12_def)
  have p1: "merge_pass exact ex_slant [ex_exact01, ex_exact12] = ([ex_exact02], 1)"
    by (simp add: merge_pass_def merge_step_def upt_rec sharesOneEnd_def ex_exact_fields
        ex_slant_exact_try_merge)
  have p2: "merge_pass exact ex_slant [ex_exact02] = ([ex_exact02], 0)"
    by (simp add: merge_pass_def merge_step_def upt_rec ex_exact_fields)
  have "merge_loop exact ex_slant [ex_exact01, ex_exact12] = Some [ex_exact02]"
    by (subst merge_loop.simps, simp add: p1, subst merge_loop.simps, simp add: p2)
  then show ?thesis
    by (simp add: makeChains_def s accept_chains_def ex_exact_fields dedup_components_def)
qed

text \<open>
  C4. The claim fails on the code. For three components with the centres \<open>(30, 200)\<close>,
  \<open>(31, 213)\<close>, \<open>(32, 226)\<close> the two seed chains share component 1 (\<open>q\<close> of the first is \<open>p\<close>
  of the second) and have the same direction, so the angle between their directions is 0,
  below \<^verbatim>\<open>strictness\<close>. In \<^verbatim>\<open>float\<close> arithmetic the dot product of the direction with itself
  is \<open>1 + 2\<^sup>-\<^sup>2\<^sup>3\<close>, \<^verbatim>\<open>acos\<close> of it is NaN and the test \<^verbatim>\<open>acos(...) < strictness\<close> is false:
  the pass performs no merge, the loop stops with both chains in the pool (in either
  order of the two seeds, which have the same \<^verbatim>\<open>dist\<close>), and \<^verbatim>\<open>makeChains\<close> returns no chain.
  In exact arithmetic the same input gives the one chain over the three components.
\<close>

theorem C4_aligned_pair_survives:
  "seed_chains ieee ex_slant = [ex_slant01, ex_slant12]
   \<and> cq ex_slant01 = cp ex_slant12
   \<and> vector_angle (direction ex_slant01) (direction ex_slant12) = 0
   \<and> 0 < strictness ieee
   \<and> to_float ieee (to_float ieee (fx (direction ex_slant01) * fx (direction ex_slant12))
                     + to_float ieee (fy (direction ex_slant01) * fy (direction ex_slant12)))
       = 8388609 / 8388608
   \<and> \<not> aligned_same ieee ex_slant01 ex_slant12
   \<and> merge_loop ieee ex_slant [ex_slant01, ex_slant12] = Some [ex_slant01, ex_slant12]
   \<and> merge_loop ieee ex_slant [ex_slant12, ex_slant01] = Some [ex_slant12, ex_slant01]
   \<and> makeChains ieee ex_slant = Some []
   \<and> map_option (map components) (makeChains exact ex_slant) = Some [[0, 1, 2]]"
proof -
  have "vector_angle ex_slant_dir ex_slant_dir = 0"
    by (rule vector_angle_self) (simp add: ex_slant_dir_def)
  then show ?thesis
    by (simp add: ex_slant_seeds ex_slant_fields ieee_consts2 ex_slant_dot ex_slant_not_aligned
        ex_slant_loop ex_slant_result ex_slant_exact_result)
qed

subsection \<open>Accepted text\<close>

lemma skip_digits_Nil_iff: "skip_digits s = [] \<longleftrightarrow> (\<forall>c \<in> set s. isdigit c)"
  by (induction s) auto

lemma trim_Nil [simp]: "trim [] = []"
  by (simp add: trim_def)

lemma accept_text_iff:
  "accept_text out ncomp text =
     (if trim out \<noteq> [] \<and> length (trim out) = ncomp \<and> (\<forall>c \<in> set (trim out). isdigit c)
      then text @ [trim out] else text)"
proof (cases "out = []")
  case True
  then show ?thesis by (simp add: accept_text_def)
next
  case False
  then show ?thesis
    by (auto simp: accept_text_def Let_def is_number_def skip_digits_Nil_iff)
qed

lemma chain_step_append:
  "chain_step params w bbs ocr bb chs text i = text @ chain_step params w bbs ocr bb chs [] i"
  by (simp add: chain_step_def accept_text_iff split: option.splits)

lemma foldl_chain_step:
  "foldl (chain_step params w bbs ocr bb chs) text is
     = text @ concat (map (chain_step params w bbs ocr bb chs []) is)"
proof (induction "is" arbitrary: "text")
  case Nil
  then show ?case by simp
next
  case (Cons i "is")
  show ?case
    using Cons [of "chain_step params w bbs ocr bb chs text i"]
      chain_step_append [of params w bbs ocr bb chs "text" i]
    by simp
qed

lemma accept_chains_distinct:
  "c \<in> set (accept_chains pool) \<Longrightarrow> distinct (components c)"
  using sorted_distinct_remdups_adj [of "sort (components x)" for x]
  by (auto simp: accept_chains_def dedup_components_def)

lemma makeChains_distinct:
  assumes "makeChains m d = Some chs" "i < length chs"
  shows "distinct (components (chs ! i))"
proof -
  obtain pool where "chs = accept_chains pool"
    using assms(1) by (auto simp: makeChains_def split: option.splits)
  then show ?thesis using assms(2) accept_chains_distinct [of "chs ! i" pool] by simp
qed

text \<open>
  C2. A chain reaches the OCR stage when its loop iteration passes the width, height and
  angle tests and the rotated region is not empty; \<open>out\<close> is then the string the OCR
  collaborator returns for it. The iteration appends the trimmed string to the text list
  if and only if it is non-empty after trimming, its length equals the number of entries
  of the chain's component list and all its characters are decimal digits; otherwise it
  leaves the text list as it is. The list the whole loop returns is the list it was given
  followed by what the iterations append, in the order of the chains. For a chain that
  \<^verbatim>\<open>makeChains\<close> returned the component list has no duplicates, so the number of its entries
  is the number of different components.
\<close>

theorem C2_ocr_text_accepted:
  assumes "ocr_stage params w bbs ocr bb chs i = Some out"
  shows "chain_step params w bbs ocr bb chs text i =
           (if trim out \<noteq> [] \<and> length (trim out) = length (components (chs ! i))
               \<and> (\<forall>c \<in> set (trim out). isdigit c)
            then text @ [trim out] else text)
       \<and> renderChainsWithBoxes params w h bbs ocr chs text0
           = text0 @ concat (map (chain_step params w bbs ocr (findBoundingBoxes chs bbs w h) chs [])
                                 [0..<length chs])
       \<and> (makeChains m d = Some chs \<and> i < length chs
            \<longrightarrow> length (components (chs ! i)) = card (set (components (chs ! i))))"
proof -
  have 1: "chain_step params w bbs ocr bb chs text i =
           (if trim out \<noteq> [] \<and> length (trim out) = length (components (chs ! i))
               \<and> (\<forall>c \<in> set (trim out). isdigit c)
            then text @ [trim out] else text)"
    unfolding chain_step_def assms option.case by (rule accept_text_iff)
  have 2: "renderChainsWithBoxes params w h bbs ocr chs text0
           = text0 @ concat (map (chain_step params w bbs ocr (findBoundingBoxes chs bbs w h) chs [])
                                 [0..<length chs])"
    by (simp add: renderChainsWithBoxes_def Let_def foldl_chain_step findBoundingBoxes_def)
  have 3: "length (components (chs ! i)) = card (set (components (chs ! i)))"
    if "makeChains m d = Some chs" "i < length chs"
    using makeChains_distinct [OF that] by (simp add: distinct_card)
  show ?thesis using 1 2 3 by blast
qed


lemma ex_chain3_box:
  "findBoundingBoxes [ex_chain3] (compBB ex_line) 40 30 = [((6, 5), (34, 15))]"
  by (simp add: findBoundingBoxes_def chain_box_def ex_chain3_def ex_line_def)

lemma ex_chain3_stage:
  "ocr_stage ex_params 40 (compBB ex_line) (\<lambda>i c t. Some out) [((6, 5), (34, 15))] [ex_chain3] 0
     = Some out"
proof -
  have h: "chain_minHeight (compBB ex_line) ((6, 5), (34, 15)) ex_chain3 = 10"
    by (simp add: chain_minHeight_def comp_height_def ex_chain3_def ex_line_def)
  have d: "direction ex_chain3 = \<lparr>fx = - 1, fy = 0\<rparr>"
    by (simp add: ex_chain3_def ex_chain02_def)
  have p: "maxImgWidthToTextRatio ex_params = 4" "minCharacterheight ex_params = 5"
    "maxAngle ex_params = 10"
    by (simp_all add: ex_params_def)
  show ?thesis
    by (simp add: ocr_stage_def h d p atan2_def absd_def)
qed

theorem C2_ocr_text_accepted_witness:
  "makeChains ieee ex_line = Some [ex_chain3]
   \<and> ocr_stage ex_params 40 (compBB ex_line) (\<lambda>i c t. Some '' 123 '')
        (findBoundingBoxes [ex_chain3] (compBB ex_line) 40 30) [ex_chain3] 0 = Some '' 123 ''
   \<and> chain_step ex_params 40 (compBB ex_line) (\<lambda>i c t. Some '' 123 '')
        (findBoundingBoxes [ex_chain3] (compBB ex_line) 40 30) [ex_chain3] [''7''] 0 = [''7'', ''123'']
   \<and> renderChainsWithBoxes ex_params 40 30 (compBB ex_line) (\<lambda>i c t. Some '' 123 '') [ex_chain3] [''7'']
        = [''7'', ''123'']
   \<and> length (components ex_chain3) = card (set (components ex_chain3))
   \<and> chain_step ex_params 40 (compBB ex_line) (\<lambda>i c t. Some ''12a'')
        (findBoundingBoxes [ex_chain3] (compBB ex_line) 40 30) [ex_chain3] [''7''] 0 = [''7'']
   \<and> chain_step ex_params 40 (compBB ex_line) (\<lambda>i c t. Some ''12'')
        (findBoundingBoxes [ex_chain3] (compBB ex_line) 40 30) [ex_chain3] [''7''] 0 = [''7'']"
proof -
  let ?bb = "findBoundingBoxes [ex_chain3] (compBB ex_line) 40 30"
  have mk: "makeChains ieee ex_line = Some [ex_chain3]"
    by (simp add: ex_line_result ex_chain3_def)
  have st: "ocr_stage ex_params 40 (compBB ex_line) (\<lambda>i c t. Some out) ?bb [ex_chain3] 0 = Some out"
    for out
    unfolding ex_chain3_box by (rule ex_chain3_stage)
  have n: "length (components ex_chain3) = 3"
    by (simp add: ex_chain3_def)
  note a = C2_ocr_text_accepted [OF st [of "'' 123 ''"], of "[''7'']" 30 "[''7'']" ieee ex_line]
  note b = C2_ocr_text_accepted [OF st [of "''12a''"], of "[''7'']" 30 "[''7'']" ieee ex_line]
  note c = C2_ocr_text_accepted [OF st [of "''12''"], of "[''7'']" 30 "[''7'']" ieee ex_line]
  have t: "trim '' 123 '' = ''123''" "trim ''12a'' = ''12a''" "trim ''12'' = ''12''"
    by (simp_all add: trim_def isspace_def)
  have 1: "chain_step ex_params 40 (compBB ex_line) (\<lambda>i c t. Some '' 123 '') ?bb [ex_chain3] tx 0
             = tx @ [''123'']" for tx
    using C2_ocr_text_accepted [OF st [of "'' 123 ''"], of tx 30 "[''7'']" ieee ex_line]
    by (simp add: t n isdigit_def)
  have 2: "renderChainsWithBoxes ex_params 40 30 (compBB ex_line) (\<lambda>i c t. Some '' 123 '') [ex_chain3] [''7'']
        = [''7'', ''123'']"
    using a 1 [of "[]"] by simp
  have 3: "length (components ex_chain3) = card (set (components ex_chain3))"
    using a mk by simp
  have 4: "chain_step ex_params 40 (compBB ex_line) (\<lambda>i c t. Some ''12a'') ?bb [ex_chain3] [''7''] 0 = [''7'']"
    using b by (simp add: t n isdigit_def)
  have 5: "chain_step ex_params 40 (compBB ex_line) (\<lambda>i c t. Some ''12'') ?bb [ex_chain3] [''7''] 0 = [''7'']"
    using c by (simp add: t n)
  show ?thesis using mk st [of "'' 123 ''"] 1 [of "[''7'']"] 2 3 4 5 by simp
qed

subsection \<open>Minimum character height\<close>





end
